theory Spec2Isabelle
  imports Main "HOL-Library.Word" "HOL-Library.Multiset"
begin

section \<open>Machine integers and slices\<close>

text \<open>
  Offsets are Go \<open>int64\<close> values (and \<open>int\<close> is 64 bits wide on the platforms the filer
  runs on). They are modelled as \<open>int\<close>, and every addition and subtraction of the source
  is wrapped by \<open>i64\<close>, the two's complement wrap-around. \<open>int64(chunk.Size)\<close> converts a
  \<open>uint64\<close> the same way.
\<close>

definition i64 :: "int \<Rightarrow> int" where
  "i64 x = (x + 2 ^ 63) mod 2 ^ 64 - 2 ^ 63"

type_synonym byte = "8 word"

text \<open>
  A slice expression \<open>s[lo:hi]\<close> panics unless \<open>0 \<le> lo \<le> hi \<le> cap(s)\<close>. The model
  takes the capacity of a slice to be its length.
\<close>

definition slice_ok :: "'a list \<Rightarrow> int \<Rightarrow> int \<Rightarrow> bool" where
  "slice_ok s lo hi \<longleftrightarrow> 0 \<le> lo \<and> lo \<le> hi \<and> hi \<le> int (length s)"

definition slice :: "'a list \<Rightarrow> int \<Rightarrow> int \<Rightarrow> 'a list" where
  "slice s lo hi = take (nat (hi - lo)) (drop (nat lo) s)"

text \<open>
  \<open>copy(p[lo:hi], src)\<close> overwrites \<open>min (hi - lo) (len src)\<close> bytes of \<open>p\<close> from
  position \<open>lo\<close> on and returns that number.
\<close>

definition copied_len :: "int \<Rightarrow> int \<Rightarrow> 'a list \<Rightarrow> int" where
  "copied_len lo hi src = min (hi - lo) (int (length src))"

definition copy_to :: "'a list \<Rightarrow> int \<Rightarrow> int \<Rightarrow> 'a list \<Rightarrow> 'a list" where
  "copy_to p lo hi src =
     take (nat lo) p @ take (nat (copied_len lo hi src)) src
       @ drop (nat (lo + copied_len lo hi src)) p"

section \<open>The location resolver\<close>

text \<open>
  \<open>LookupFn\<close> returns a closure over a fresh map \<open>vidCache\<close> from volume ids to
  locations. The closure is modelled by the map it captures, and a call of the closure by
  \<open>lookupFileId\<close>, which takes and returns that map.

  The filer client is a collaborator. \<open>LookupVolume k vid\<close> is the answer of the
  remote call number \<open>k\<close> for volume \<open>vid\<close>: \<open>Inl\<close> an error of the call, \<open>Inr None\<close>
  a response without an entry for the volume, \<open>Inr (Some ls)\<close> a response with the
  locations \<open>ls\<close>. \<open>VolumeId\<close> parses the volume id out of a file id, and
  \<open>retries\<close> and \<open>retryable\<close> are the retry policy.
\<close>

type_synonym 'l vid_cache = "string \<rightharpoonup> 'l list"

record 'l filer_client =
  LookupVolume :: "nat \<Rightarrow> string \<Rightarrow> string + 'l list option"
  AdjustedUrl :: "'l \<Rightarrow> string"
  VolumeId :: "string \<Rightarrow> string"
  retries :: nat
  retryable :: "string \<Rightarrow> bool"

definition LookupFn :: "'l vid_cache" where
  "LookupFn = Map.empty"

text \<open>
  The variables the retried function reads and writes: the local \<open>locations\<close>
  (\<open>None\<close> is the nil pointer), the result \<open>err\<close> (here \<open>lookup_err\<close>), the captured \<open>vidCache\<close>, and the
  number of remote calls made so far (not in the source).
\<close>

record 'l lookup_vars =
  locations :: "'l list option"
  lookup_err :: "string option"
  vidCache :: "'l vid_cache"
  lookups :: nat

text \<open>
  Modelled from the spec: \<open>util.Retry\<close>, which lies outside the file. It runs the
  function once and then again, at most \<open>retries\<close> more times, while the function
  fails with an error the policy retries; it returns the last error.
\<close>

fun Retry :: "nat \<Rightarrow> (string \<Rightarrow> bool) \<Rightarrow> ('s \<Rightarrow> string option \<times> 's) \<Rightarrow> 's \<Rightarrow> string option \<times> 's" where
  "Retry 0 again job s = job s"
| "Retry (Suc k) again job s =
     (case job s of
        (None, s1) \<Rightarrow> (None, s1)
      | (Some e, s1) \<Rightarrow> if again e then Retry k again job s1 else (Some e, s1))"

definition lookup_job :: "'l filer_client \<Rightarrow> string \<Rightarrow> string \<Rightarrow> 'l lookup_vars \<Rightarrow> string option \<times> 'l lookup_vars" where
  "lookup_job client fileId vid s =
     (let s1 = s\<lparr>lookups := Suc (lookups s)\<rparr> in
      case LookupVolume client (lookups s) vid of
        Inl e \<Rightarrow> (Some e, s1\<lparr>lookup_err := Some e\<rparr>)
      | Inr resp \<Rightarrow>
          (let s2 = s1\<lparr>locations := resp\<rparr>;
               failed = ''failed to locate '' @ fileId
           in case resp of
                None \<Rightarrow> (Some failed, s2\<lparr>lookup_err := Some failed\<rparr>)
              | Some locs \<Rightarrow>
                  if length locs = 0 then (Some failed, s2\<lparr>lookup_err := Some failed\<rparr>)
                  else (None, s2\<lparr>vidCache := (vidCache s2)(vid \<mapsto> locs), lookup_err := None\<rparr>)))"

definition targetUrl :: "'l filer_client \<Rightarrow> string \<Rightarrow> 'l \<Rightarrow> string" where
  "targetUrl client fileId loc = ''http://'' @ AdjustedUrl client loc @ ''/'' @ fileId"

text \<open>
  The shuffle loop \<open>for i := len - 1; i > 0; i--\<close>. The values \<open>rand.Intn\<close> returns are
  an argument: the head of \<open>js\<close> is the raw value drawn at index \<open>i\<close>, and
  \<open>rand.Intn (i + 1)\<close> is that value modulo \<open>i + 1\<close>. With no value left the loop stops.
\<close>

fun shuffle_loop :: "nat \<Rightarrow> 'a list \<Rightarrow> nat list \<Rightarrow> 'a list" where
  "shuffle_loop 0 xs js = xs"
| "shuffle_loop (Suc k) xs [] = xs"
| "shuffle_loop (Suc k) xs (r # js) =
     (let i = Suc k; j = r mod (i + 1)
      in shuffle_loop k (xs[i := xs ! j, j := xs ! i]) js)"

definition shuffle :: "'a list \<Rightarrow> nat list \<Rightarrow> 'a list" where
  "shuffle xs js = shuffle_loop (length xs - 1) xs js"

datatype lookup_panic = Nil_locations

definition lookupFileId ::
  "'l filer_client \<Rightarrow> nat list \<Rightarrow> string \<Rightarrow> 'l vid_cache \<times> nat
     \<Rightarrow> (lookup_panic + (string + string list)) \<times> 'l vid_cache \<times> nat" where
  "lookupFileId client js fileId st =
     (let vid = VolumeId client fileId;
          s0 = \<lparr>locations = fst st vid, lookup_err = None, vidCache = fst st, lookups = snd st\<rparr>;
          s = (if fst st vid = None
               then snd (Retry (retries client) (retryable client) (lookup_job client fileId vid) s0)
               else s0)
      in case lookup_err s of
           Some e \<Rightarrow> (Inr (Inl e), vidCache s, lookups s)
         | None \<Rightarrow>
             (case locations s of
                None \<Rightarrow> (Inl Nil_locations, vidCache s, lookups s)
              | Some locs \<Rightarrow>
                  (Inr (Inr (shuffle (map (targetUrl client fileId) locs) js)),
                   vidCache s, lookups s)))"

text \<open>
  A run of calls of one closure, each with its file id and the values drawn for it; the
  result is the captured map and the number of remote calls after the last one.
\<close>

definition lookup_all ::
  "'l filer_client \<Rightarrow> (nat list \<times> string) list \<Rightarrow> 'l vid_cache \<times> nat \<Rightarrow> 'l vid_cache \<times> nat" where
  "lookup_all client calls st = fold (\<lambda>(js, fid) s. snd (lookupFileId client js fid s)) calls st"

text \<open>
  The sequences of values \<open>rand.Intn\<close> can return during the shuffle loop that starts at
  index \<open>k\<close>: one value for each index from \<open>k\<close> down to 1, the value for index \<open>i\<close>
  being at most \<open>i\<close>.
\<close>

fun draws_ok :: "nat \<Rightarrow> nat list \<Rightarrow> bool" where
  "draws_ok 0 js = (js = [])"
| "draws_ok (Suc k) [] = False"
| "draws_ok (Suc k) (r # js) = (r \<le> Suc k \<and> draws_ok k js)"

section \<open>The chunked reader\<close>

text \<open>
  Modelled from the spec: the \<open>ChunkView\<close> struct, whose declaration lies outside the
  file; its seven fields are the ones \<open>reader_at.go\<close> reads. \<open>Offset\<close> and
  \<open>LogicOffset\<close> are \<open>int64\<close>, \<open>Size\<close> and \<open>ChunkSize\<close> are \<open>uint64\<close>.
\<close>

record ChunkView =
  FileId :: string
  Offset :: int
  Size :: nat
  LogicOffset :: int
  ChunkSize :: nat
  CipherKey :: "byte list"
  IsGzipped :: bool

text \<open>
  The collaborators of the reader. \<open>fetchChunk\<close> is the wire fetch, which lies outside
  the file; it is given the reader's lookup closure and may change the map the closure
  captures. Its first argument is the number of wire fetches made before, so that two
  fetches of one chunk may differ. The content cache is any type \<open>'c\<close> with a lookup and
  a store.
\<close>

record ('c, 'l) collaborators =
  fetchChunk :: "nat \<Rightarrow> 'l vid_cache \<Rightarrow> string \<Rightarrow> byte list \<Rightarrow> bool
                   \<Rightarrow> (string + byte list) \<times> 'l vid_cache"
  GetChunk :: "'c \<Rightarrow> string \<Rightarrow> nat \<Rightarrow> byte list option"
  SetChunk :: "'c \<Rightarrow> string \<Rightarrow> byte list \<Rightarrow> 'c"

text \<open>
  The reader. \<open>chunkCache = None\<close> is the nil interface. The last three fields are not
  in the source: they count the calls of \<open>readOneWholeChunk\<close> made by reads, the calls
  of \<open>doFetchFullChunkData\<close>, and record the read-ahead goroutines launched (which the
  sequential model does not run).
\<close>

record ('c, 'l) ChunkReadAt =
  chunkViews :: "ChunkView list"
  lookupFileId_closure :: "'l vid_cache"
  fileSize :: int
  lastChunkFileId :: string
  lastChunkData :: "byte list"
  chunkCache :: "'c option"
  coordinatorCalls :: nat
  wireFetches :: nat
  readAheads :: "ChunkView list"

datatype panic = Nil_chunk_cache | Dst_slice_out_of_range | Src_slice_out_of_range

datatype error = EOF | Fetch_failed string

datatype 'a outcome = Panicked panic | Returned 'a

definition doFetchFullChunkData ::
  "('c, 'l) collaborators \<Rightarrow> ('c, 'l) ChunkReadAt \<Rightarrow> ChunkView \<Rightarrow> (string + byte list) \<times> ('c, 'l) ChunkReadAt" where
  "doFetchFullChunkData env c chunkView =
     (case fetchChunk env (wireFetches c) (lookupFileId_closure c) (FileId chunkView)
             (CipherKey chunkView) (IsGzipped chunkView) of
        (r, vc) \<Rightarrow> (r, c\<lparr>lookupFileId_closure := vc, wireFetches := Suc (wireFetches c)\<rparr>))"

text \<open>
  \<open>fetchGroup.Do\<close> runs its function when no call for the key is in flight, which is
  always so in a sequential run.
\<close>

definition readOneWholeChunk ::
  "('c, 'l) collaborators \<Rightarrow> ('c, 'l) ChunkReadAt \<Rightarrow> ChunkView \<Rightarrow> ((string + byte list) \<times> ('c, 'l) ChunkReadAt) outcome" where
  "readOneWholeChunk env c chunkView =
     (case chunkCache c of
        None \<Rightarrow> Panicked Nil_chunk_cache
      | Some cache \<Rightarrow>
          (let c1 = c\<lparr>coordinatorCalls := Suc (coordinatorCalls c)\<rparr> in
           case GetChunk env cache (FileId chunkView) (ChunkSize chunkView) of
             Some data \<Rightarrow> Returned (Inr data, c1)
           | None \<Rightarrow>
               (case doFetchFullChunkData env c1 chunkView of
                  (Inl err, c2) \<Rightarrow> Returned (Inl err, c2)
                | (Inr data, c2) \<Rightarrow>
                    Returned (Inr data,
                      c2\<lparr>chunkCache := Some (SetChunk env cache (FileId chunkView) data)\<rparr>))))"

definition launch_read_ahead :: "ChunkView option \<Rightarrow> ('c, 'l) ChunkReadAt \<Rightarrow> ('c, 'l) ChunkReadAt" where
  "launch_read_ahead nextChunkView c =
     (case nextChunkView of
        Some v \<Rightarrow> if chunkCache c \<noteq> None then c\<lparr>readAheads := readAheads c @ [v]\<rparr> else c
      | None \<Rightarrow> c)"

definition readFromWholeChunkData ::
  "('c, 'l) collaborators \<Rightarrow> ('c, 'l) ChunkReadAt \<Rightarrow> ChunkView \<Rightarrow> ChunkView option list
     \<Rightarrow> ((string + byte list) \<times> ('c, 'l) ChunkReadAt) outcome" where
  "readFromWholeChunkData env c chunkView nextChunkViews =
     (if lastChunkFileId c = FileId chunkView then Returned (Inr (lastChunkData c), c)
      else
        case readOneWholeChunk env c chunkView of
          Panicked k \<Rightarrow> Panicked k
        | Returned (Inl doErr, c1) \<Rightarrow> Returned (Inl doErr, c1)
        | Returned (Inr chunkData, c1) \<Rightarrow>
            Returned (Inr chunkData,
              fold launch_read_ahead nextChunkViews
                (c1\<lparr>lastChunkData := chunkData, lastChunkFileId := FileId chunkView\<rparr>)))"

text \<open>The local variables of \<open>doReadAt\<close>, with the output buffer and the reader.\<close>

record ('c, 'l) walk =
  nbytes :: int
  startOffset :: int
  remaining :: int
  buf :: "byte list"
  rdr :: "('c, 'l) ChunkReadAt"

datatype ('c, 'l) ctl = Continue "('c, 'l) walk" | Break "('c, 'l) walk" | Return "('c, 'l) walk" string | Panic panic

definition fill_gap :: "ChunkView \<Rightarrow> ('c, 'l) walk \<Rightarrow> ('c, 'l) walk" where
  "fill_gap chunk w =
     (let gap = i64 (LogicOffset chunk - startOffset w) in
      w\<lparr>nbytes := i64 (nbytes w + min gap (remaining w)),
        startOffset := LogicOffset chunk,
        remaining := i64 (remaining w - gap)\<rparr>)"

definition read_view ::
  "('c, 'l) collaborators \<Rightarrow> int \<Rightarrow> ChunkView \<Rightarrow> ChunkView option \<Rightarrow> ('c, 'l) walk \<Rightarrow> ('c, 'l) ctl" where
  "read_view env offset chunk nextChunk w =
     (let chunkStart = max (LogicOffset chunk) (startOffset w);
          chunkStop = min (i64 (LogicOffset chunk + i64 (int (Size chunk))))
                          (i64 (startOffset w + remaining w))
      in if chunkStart \<ge> chunkStop then Continue w
         else
           case readFromWholeChunkData env (rdr w) chunk [nextChunk] of
             Panicked k \<Rightarrow> Panic k
           | Returned (Inl err, c1) \<Rightarrow> Return (w\<lparr>rdr := c1\<rparr>) err
           | Returned (Inr buffer, c1) \<Rightarrow>
               (let bufferOffset = i64 (i64 (chunkStart - LogicOffset chunk) + Offset chunk);
                    lo = i64 (startOffset w - offset);
                    hi = i64 (i64 (i64 (chunkStop - chunkStart) + startOffset w) - offset);
                    srcHi = i64 (i64 (bufferOffset + chunkStop) - chunkStart)
                in if \<not> slice_ok (buf w) lo hi then Panic Dst_slice_out_of_range
                   else if \<not> slice_ok buffer bufferOffset srcHi then Panic Src_slice_out_of_range
                   else
                     (let src = slice buffer bufferOffset srcHi;
                          copied = copied_len lo hi src
                      in Continue (w\<lparr>nbytes := i64 (nbytes w + copied),
                                     startOffset := i64 (startOffset w + copied),
                                     remaining := i64 (remaining w - copied),
                                     buf := copy_to (buf w) lo hi src,
                                     rdr := c1\<rparr>))))"

text \<open>One iteration of the loop of \<open>doReadAt\<close>, after the test \<open>remaining <= 0\<close>.\<close>

definition loop_body ::
  "('c, 'l) collaborators \<Rightarrow> int \<Rightarrow> ChunkView \<Rightarrow> ChunkView option \<Rightarrow> ('c, 'l) walk \<Rightarrow> ('c, 'l) ctl" where
  "loop_body env offset chunk nextChunk w =
     (if startOffset w < LogicOffset chunk
      then (let w1 = fill_gap chunk w in
            if remaining w1 \<le> 0 then Break w1 else read_view env offset chunk nextChunk w1)
      else read_view env offset chunk nextChunk w)"

datatype ('c, 'l) loop_exit = Done "('c, 'l) walk" | Failed "('c, 'l) walk" string | Crashed panic

fun walk_views ::
  "('c, 'l) collaborators \<Rightarrow> int \<Rightarrow> ChunkView list \<Rightarrow> ('c, 'l) walk \<Rightarrow> ('c, 'l) loop_exit" where
  "walk_views env offset [] w = Done w"
| "walk_views env offset (chunk # rest) w =
     (if remaining w \<le> 0 then Done w
      else
        case loop_body env offset chunk (case rest of [] \<Rightarrow> None | nxt # _ \<Rightarrow> Some nxt) w of
          Continue w1 \<Rightarrow> walk_views env offset rest w1
        | Break w1 \<Rightarrow> Done w1
        | Return w1 err \<Rightarrow> Failed w1 err
        | Panic k \<Rightarrow> Crashed k)"

definition init_walk :: "('c, 'l) ChunkReadAt \<Rightarrow> byte list \<Rightarrow> int \<Rightarrow> ('c, 'l) walk" where
  "init_walk c p offset =
     \<lparr>nbytes = 0, startOffset = offset, remaining = int (length p), buf = p, rdr = c\<rparr>"

text \<open>
  \<open>doReadAt\<close> returns the count \<open>n\<close>, the error (\<open>None\<close> is nil), the output buffer and the
  reader. The \<open>return\<close> inside the loop leaves with the fetch error and skips the
  trailing gap and the end-of-file test.
\<close>

definition doReadAt ::
  "('c, 'l) collaborators \<Rightarrow> ('c, 'l) ChunkReadAt \<Rightarrow> byte list \<Rightarrow> int
     \<Rightarrow> (int \<times> error option \<times> byte list \<times> ('c, 'l) ChunkReadAt) outcome" where
  "doReadAt env c p offset =
     (case walk_views env offset (chunkViews c) (init_walk c p offset) of
        Crashed k \<Rightarrow> Panicked k
      | Failed w err \<Rightarrow> Returned (nbytes w, Some (Fetch_failed err), buf w, rdr w)
      | Done w \<Rightarrow>
          (let n = (if remaining w > 0 \<and> fileSize c > startOffset w
                    then i64 (nbytes w + min (remaining w) (i64 (fileSize c - startOffset w)))
                    else nbytes w);
               err = (if i64 (offset + int (length p)) \<ge> fileSize c then Some EOF else None)
           in Returned (n, err, buf w, rdr w)))"

definition ReadAt ::
  "('c, 'l) collaborators \<Rightarrow> ('c, 'l) ChunkReadAt \<Rightarrow> byte list \<Rightarrow> int
     \<Rightarrow> (int \<times> error option \<times> byte list \<times> ('c, 'l) ChunkReadAt) outcome" where
  "ReadAt env c p offset = doReadAt env c (drop 0 p) (i64 (offset + 0))"

definition NewChunkReaderAtFromClient :: "ChunkView list \<Rightarrow> 'c option \<Rightarrow> int \<Rightarrow> ('c, 'l) ChunkReadAt" where
  "NewChunkReaderAtFromClient views cache fsize =
     \<lparr>chunkViews = views, lookupFileId_closure = LookupFn, fileSize = fsize, lastChunkFileId = [], lastChunkData = [],
      chunkCache = cache, coordinatorCalls = 0, wireFetches = 0, readAheads = []\<rparr>"

section \<open>Ranges and the loop invariant\<close>

text \<open>
  The theorems below are about calls in which no \<open>int64\<close> operation overflows: the
  offset is not negative and the end of the window fits in an \<open>int64\<close>, and so do the
  end of each view in the file and in its chunk.
\<close>

definition view_in_range :: "ChunkView \<Rightarrow> bool" where
  "view_in_range v \<longleftrightarrow>
     0 \<le> LogicOffset v \<and> LogicOffset v + int (Size v) < 2 ^ 63 \<and>
     0 \<le> Offset v \<and> Offset v + int (Size v) < 2 ^ 63"

definition window_in_range :: "int \<Rightarrow> nat \<Rightarrow> bool" where
  "window_in_range offset L \<longleftrightarrow> 0 \<le> offset \<and> offset + int L < 2 ^ 63"

definition reader_in_range :: "('c, 'l) ChunkReadAt \<Rightarrow> bool" where
  "reader_in_range c \<longleftrightarrow> fileSize c < 2 ^ 63 \<and> (\<forall>v \<in> set (chunkViews c). view_in_range v)"

text \<open>
  The invariant of the loop of \<open>doReadAt\<close> for a buffer of \<open>L\<close> bytes: the count is the
  part of the buffer that is used up, and while bytes remain the cursor is the offset plus
  the count.
\<close>

definition walk_inv :: "int \<Rightarrow> nat \<Rightarrow> ('c, 'l) walk \<Rightarrow> bool" where
  "walk_inv offset L w \<longleftrightarrow>
     length (buf w) = L \<and> remaining w \<le> int L \<and>
     nbytes w = int L - max 0 (remaining w) \<and>
     (0 < remaining w \<longrightarrow> startOffset w = offset + nbytes w)"

text \<open>The gap branch of the loop body in exact arithmetic.\<close>

definition gap_filled :: "ChunkView \<Rightarrow> ('c, 'l) walk \<Rightarrow> ('c, 'l) walk" where
  "gap_filled chunk w =
     (if startOffset w < LogicOffset chunk
      then w\<lparr>nbytes := nbytes w + min (LogicOffset chunk - startOffset w) (remaining w),
             startOffset := LogicOffset chunk,
             remaining := remaining w - (LogicOffset chunk - startOffset w)\<rparr>
      else w)"

text \<open>
  The views of a file are ordered ascending by logical offset and do not overlap: each
  view ends at or before the start of every later one.
\<close>

definition views_ordered :: "ChunkView list \<Rightarrow> bool" where
  "views_ordered views \<longleftrightarrow>
     sorted_wrt (\<lambda>a b. LogicOffset a + int (Size a) \<le> LogicOffset b) views"

text \<open>A window of \<open>L\<close> bytes at \<open>offset\<close> lies inside the byte range of a view.\<close>

definition inside_view :: "ChunkView \<Rightarrow> int \<Rightarrow> nat \<Rightarrow> bool" where
  "inside_view v offset L \<longleftrightarrow>
     LogicOffset v \<le> offset \<and> offset + int L \<le> LogicOffset v + int (Size v)"

text \<open>
  What makes the source slice of the copy stay in range: every byte list the reader can
  get for a view holds at least \<open>Offset + Size\<close> bytes. The reader gets byte lists
  from the wire fetch, from the content cache (whose states are described by a predicate
  \<open>I\<close> that \<open>SetChunk\<close> keeps) and from its recency slot.
\<close>

definition long_enough :: "ChunkView list \<Rightarrow> string \<Rightarrow> byte list \<Rightarrow> bool" where
  "long_enough views fid data \<longleftrightarrow>
     (\<forall>v \<in> set views. FileId v = fid \<longrightarrow> Offset v + int (Size v) \<le> int (length data))"

definition fetches_long_enough :: "('c, 'l) collaborators \<Rightarrow> ChunkView list \<Rightarrow> bool" where
  "fetches_long_enough env views \<longleftrightarrow>
     (\<forall>k vc fid key gz data vc1.
        fetchChunk env k vc fid key gz = (Inr data, vc1) \<longrightarrow> long_enough views fid data)"

definition cache_long_enough :: "('c, 'l) collaborators \<Rightarrow> ChunkView list \<Rightarrow> ('c \<Rightarrow> bool) \<Rightarrow> bool" where
  "cache_long_enough env views I \<longleftrightarrow>
     (\<forall>cache fid sz data.
        I cache \<longrightarrow> GetChunk env cache fid sz = Some data \<longrightarrow> long_enough views fid data) \<and>
     (\<forall>cache fid data.
        I cache \<longrightarrow> long_enough views fid data \<longrightarrow> I (SetChunk env cache fid data))"

definition reader_long_enough :: "ChunkView list \<Rightarrow> ('c \<Rightarrow> bool) \<Rightarrow> ('c, 'l) ChunkReadAt \<Rightarrow> bool" where
  "reader_long_enough views I c \<longleftrightarrow>
     long_enough views (lastChunkFileId c) (lastChunkData c) \<and>
     (\<forall>cache. chunkCache c = Some cache \<longrightarrow> I cache)"

section \<open>Example inputs\<close>

text \<open>
  A content cache that is a map, and a wire fetch given by a function. Locations are
  strings in the examples.
\<close>

definition map_cache_env ::
  "(nat \<Rightarrow> string \<Rightarrow> string + byte list) \<Rightarrow> (string \<rightharpoonup> byte list, string) collaborators" where
  "map_cache_env wire =
     \<lparr>fetchChunk = (\<lambda>k vc fid key gz. (wire k fid, vc)),
      GetChunk = (\<lambda>m fid sz. m fid),
      SetChunk = (\<lambda>m fid d. m(fid \<mapsto> d))\<rparr>"

definition view :: "string \<Rightarrow> int \<Rightarrow> nat \<Rightarrow> int \<Rightarrow> ChunkView" where
  "view fid off sz logic =
     \<lparr>FileId = fid, Offset = off, Size = sz, LogicOffset = logic, ChunkSize = sz,
      CipherKey = [], IsGzipped = False\<rparr>"

text \<open>
  The sparse file of the spec: a view over \<open>[0,100)\<close>, a view over \<open>[150,200)\<close>, size 200.
  The first chunk holds bytes 1, the second bytes 2.
\<close>

definition sparse_wire :: "nat \<Rightarrow> string \<Rightarrow> string + byte list" where
  "sparse_wire k fid =
     (if fid = ''3,01'' then Inr (replicate 100 1)
      else if fid = ''3,02'' then Inr (replicate 50 2)
      else Inl ''not found'')"

definition sparse_views :: "ChunkView list" where
  "sparse_views = [view ''3,01'' 0 100 0, view ''3,02'' 0 50 150]"

definition sparse_reader :: "(string \<rightharpoonup> byte list, string) ChunkReadAt" where
  "sparse_reader = NewChunkReaderAtFromClient sparse_views (Some Map.empty) 200"

text \<open>A wire fetch that returns 60 bytes for every chunk.\<close>

definition short_wire :: "nat \<Rightarrow> string \<Rightarrow> string + byte list" where
  "short_wire k fid = Inr (replicate 60 1)"

definition cached_long_enough :: "(string \<rightharpoonup> byte list) \<Rightarrow> bool" where
  "cached_long_enough m \<longleftrightarrow> (\<forall>fid \<in> dom m. long_enough sparse_views fid (the (m fid)))"

text \<open>A wire fetch whose first call succeeds and whose later calls fail.\<close>

definition flaky_wire :: "nat \<Rightarrow> string \<Rightarrow> string + byte list" where
  "flaky_wire k fid = (if k = 0 then Inr (replicate 100 1) else Inl ''connection reset'')"

text \<open>
  A wire fetch whose first call fails and whose later calls succeed, a reader of one view
  over \<open>[0,100)\<close>, and a reader of the sparse file built with a nil content cache.
\<close>

definition retry_wire :: "nat \<Rightarrow> string \<Rightarrow> string + byte list" where
  "retry_wire k fid = (if k = 0 then Inl ''connection reset'' else Inr (replicate 100 1))"

definition one_view_reader :: "(string \<rightharpoonup> byte list, string) ChunkReadAt" where
  "one_view_reader = NewChunkReaderAtFromClient [view ''3,01'' 0 100 0] (Some Map.empty) 100"

definition no_cache_reader :: "(string \<rightharpoonup> byte list, string) ChunkReadAt" where
  "no_cache_reader = NewChunkReaderAtFromClient sparse_views None 200"

text \<open>
  A filer client that knows three locations of volume 3 and no other volume. File ids are
  volume id, comma, key.
\<close>

definition example_client :: "string filer_client" where
  "example_client =
     \<lparr>LookupVolume = (\<lambda>k vid. if vid = ''3'' then Inr (Some [''n1:8080'', ''n2:8080'', ''n3:8080''])
                               else Inr None),
      AdjustedUrl = (\<lambda>loc. loc),
      VolumeId = takeWhile (\<lambda>ch. ch \<noteq> CHR '',''),
      retries = 2,
      retryable = (\<lambda>e. e = ''transport'')\<rparr>"

section \<open>Evaluation\<close>

lemmas reader_defs =
  ReadAt_def doReadAt_def NewChunkReaderAtFromClient_def init_walk_def loop_body_def
  read_view_def fill_gap_def readFromWholeChunkData_def readOneWholeChunk_def
  doFetchFullChunkData_def launch_read_ahead_def LookupFn_def i64_def slice_ok_def slice_def
  copy_to_def copied_len_def Let_def

lemmas example_defs = map_cache_env_def view_def sparse_wire_def sparse_views_def sparse_reader_def

text \<open>
  C1. A read of \<open>[90,160)\<close> of the sparse file into a buffer that holds bytes 255 returns
  the count 70, which includes the 50 bytes of the gap \<open>[100,150)\<close>, but the gap's
  positions of the buffer still hold 255: the gap branch adds to the count and writes
  nothing.
\<close>

theorem gap_counted_but_not_zeroed:
  "(case ReadAt (map_cache_env sparse_wire) sparse_reader (replicate 70 255) 90 of
      Returned (n, e, b, c) \<Rightarrow>
        n = 70 \<and> e = None \<and> b = replicate 10 1 @ replicate 50 255 @ replicate 10 2
    | Panicked k \<Rightarrow> False)"
  by (simp add: reader_defs example_defs)

text \<open>
  C7. A reader without views and of size 3 answers a read of \<open>[0,3)\<close> with the count 3
  and end-of-file, and leaves the buffer as it was, here three bytes 7; a read at offset 3
  returns the count 0 and end-of-file.
\<close>

theorem no_views_counted_but_not_zeroed:
  "ReadAt (map_cache_env sparse_wire) (NewChunkReaderAtFromClient [] (Some Map.empty) 3) [7, 7, 7] 0
     = Returned (3, Some EOF, [7, 7, 7], NewChunkReaderAtFromClient [] (Some Map.empty) 3)
   \<and> ReadAt (map_cache_env sparse_wire) (NewChunkReaderAtFromClient [] (Some Map.empty) 3) [7, 7] 3
     = Returned (0, Some EOF, [7, 7], NewChunkReaderAtFromClient [] (Some Map.empty) 3)"
  by (simp add: reader_defs)

section \<open>Exact arithmetic and the loop invariant\<close>

lemma i64_id: "- (2 ^ 63) \<le> x \<Longrightarrow> x < 2 ^ 63 \<Longrightarrow> i64 x = x"
  by (simp add: i64_def)

lemma i64_i64_add: "i64 (i64 a + b) = i64 (a + b)"
  by (simp add: i64_def mod_simps algebra_simps)

lemma i64_i64_diff: "i64 (i64 a - b) = i64 (a - b)"
  by (simp add: i64_def mod_simps algebra_simps)

lemma length_slice: "slice_ok s lo hi \<Longrightarrow> int (length (slice s lo hi)) = hi - lo"
  by (auto simp: slice_ok_def slice_def)

lemma fill_gap_exact:
  assumes "window_in_range offset L" "view_in_range chunk" "walk_inv offset L w"
    and "0 < remaining w" "startOffset w < LogicOffset chunk"
  shows "fill_gap chunk w =
           w\<lparr>nbytes := nbytes w + min (LogicOffset chunk - startOffset w) (remaining w),
             startOffset := LogicOffset chunk,
             remaining := remaining w - (LogicOffset chunk - startOffset w)\<rparr>"
proof -
  from assms have so: "startOffset w = offset + nbytes w" and nb: "nbytes w = int L - remaining w"
    and rl: "remaining w \<le> int L"
    by (auto simp: walk_inv_def)
  from assms have r: "0 \<le> offset" "offset + int L < 2 ^ 63" "0 \<le> LogicOffset chunk"
    "LogicOffset chunk + int (Size chunk) < 2 ^ 63"
    by (auto simp: window_in_range_def view_in_range_def)
  have g: "i64 (LogicOffset chunk - startOffset w) = LogicOffset chunk - startOffset w"
    using r so nb assms(4,5) rl by (intro i64_id) simp_all
  have m: "0 \<le> min (LogicOffset chunk - startOffset w) (remaining w)"
    "min (LogicOffset chunk - startOffset w) (remaining w) \<le> remaining w"
    using assms(4,5) by simp_all
  have n: "i64 (nbytes w + min (LogicOffset chunk - startOffset w) (remaining w))
      = nbytes w + min (LogicOffset chunk - startOffset w) (remaining w)"
    using r nb assms(4) rl m by (intro i64_id) linarith+
  have rm: "i64 (remaining w - (LogicOffset chunk - startOffset w))
      = remaining w - (LogicOffset chunk - startOffset w)"
    using r so nb assms(4,5) rl by (intro i64_id) simp_all
  show ?thesis
    unfolding fill_gap_def Let_def g n rm ..
qed

lemma read_view_exact:
  assumes "window_in_range offset L" "view_in_range chunk" "walk_inv offset L w"
    and "0 < remaining w" "LogicOffset chunk \<le> startOffset w"
  shows "read_view env offset chunk nxt w =
     (let stop = min (LogicOffset chunk + int (Size chunk)) (offset + int L) in
      if stop \<le> startOffset w then Continue w
      else
        case readFromWholeChunkData env (rdr w) chunk [nxt] of
          Panicked k \<Rightarrow> Panic k
        | Returned (Inl err, c1) \<Rightarrow> Return (w\<lparr>rdr := c1\<rparr>) err
        | Returned (Inr buffer, c1) \<Rightarrow>
            (let bo = startOffset w - LogicOffset chunk + Offset chunk;
                 len = stop - startOffset w
             in if \<not> slice_ok buffer bo (bo + len) then Panic Src_slice_out_of_range
                else Continue (w\<lparr>nbytes := nbytes w + len,
                                 startOffset := stop,
                                 remaining := remaining w - len,
                                 buf := copy_to (buf w) (nbytes w) (nbytes w + len)
                                          (slice buffer bo (bo + len)),
                                 rdr := c1\<rparr>)))"
proof -
  from assms have so: "startOffset w = offset + nbytes w" and nb: "nbytes w = int L - remaining w"
    and len: "length (buf w) = L" and rl: "remaining w \<le> int L"
    by (auto simp: walk_inv_def)
  from assms have r: "0 \<le> offset" "offset + int L < 2 ^ 63" "0 \<le> LogicOffset chunk"
    "LogicOffset chunk + int (Size chunk) < 2 ^ 63" "0 \<le> Offset chunk"
    "Offset chunk + int (Size chunk) < 2 ^ 63"
    by (auto simp: window_in_range_def view_in_range_def)
  define stop where "stop = min (LogicOffset chunk + int (Size chunk)) (offset + int L)"
  have cs: "max (LogicOffset chunk) (startOffset w) = startOffset w"
    using assms(5) by simp
  have stop: "min (i64 (LogicOffset chunk + i64 (int (Size chunk)))) (i64 (startOffset w + remaining w)) = stop"
    using r so nb assms(4) by (simp add: i64_id stop_def)
  have sb: "stop \<le> LogicOffset chunk + int (Size chunk)" "stop \<le> offset + int L"
    by (simp_all add: stop_def)
  show ?thesis
  proof (cases "stop \<le> startOffset w")
    case True
    then show ?thesis
      by (simp add: read_view_def Let_def cs stop stop_def [symmetric])
  next
    case False
    have bo: "i64 (i64 (startOffset w - LogicOffset chunk) + Offset chunk) = startOffset w - LogicOffset chunk + Offset chunk"
      using r sb False assms(5) by (simp add: i64_i64_add i64_id)
    have lo: "i64 (startOffset w - offset) = nbytes w"
      using r so nb assms(4) rl by (simp add: i64_id)
    have hi: "i64 (i64 (i64 (stop - startOffset w) + startOffset w) - offset) = nbytes w + (stop - startOffset w)"
      using r so nb assms(4) rl sb False by (simp add: i64_i64_add i64_i64_diff i64_id)
    have sh: "i64 (i64 (startOffset w - LogicOffset chunk + Offset chunk + stop) - startOffset w)
        = startOffset w - LogicOffset chunk + Offset chunk + (stop - startOffset w)"
      using r sb False assms(5) by (simp add: i64_i64_diff i64_id)
    have dst: "slice_ok (buf w) (nbytes w) (nbytes w + (stop - startOffset w))"
      using r so nb assms(4) rl sb False len by (simp add: slice_ok_def)
    have cl: "\<And>buffer a b. slice_ok buffer a b \<Longrightarrow> b - a = stop - startOffset w \<Longrightarrow>
       copied_len (nbytes w) (nbytes w + (stop - startOffset w)) (slice buffer a b) = stop - startOffset w"
      by (simp add: copied_len_def length_slice)
    have a1: "i64 (nbytes w + (stop - startOffset w)) = nbytes w + (stop - startOffset w)"
      using r so nb assms(4) rl sb False by (simp add: i64_id)
    have a2: "i64 stop = stop"
      using r so nb assms(4) rl sb False by (simp add: i64_id)
    have a3: "i64 (remaining w - (stop - startOffset w)) = remaining w - (stop - startOffset w)"
      using r so nb assms(4) rl sb False by (simp add: i64_id)
    show ?thesis
      using False
      by (simp add: read_view_def Let_def cs stop bo lo hi sh dst cl a1 a2 a3 stop_def [symmetric]
          split: outcome.split sum.split prod.split)
  qed
qed

lemma length_copy_to:
  "0 \<le> lo \<Longrightarrow> lo \<le> hi \<Longrightarrow> hi \<le> int (length p) \<Longrightarrow> length (copy_to p lo hi src) = length p"
  by (auto simp: copy_to_def copied_len_def min_def)

lemma gap_filled_inv:
  assumes "walk_inv offset L w" "0 < remaining w"
  shows "walk_inv offset L (gap_filled chunk w)"
  using assms by (auto simp: gap_filled_def walk_inv_def)

lemma gap_filled_simps [simp]:
  "buf (gap_filled chunk w) = buf w" "rdr (gap_filled chunk w) = rdr w"
  "startOffset (gap_filled chunk w) = max (LogicOffset chunk) (startOffset w)"
  by (auto simp: gap_filled_def)

lemma loop_body_exact:
  assumes "window_in_range offset L" "view_in_range chunk" "walk_inv offset L w"
    and "0 < remaining w"
  shows "loop_body env offset chunk nxt w =
     (if remaining (gap_filled chunk w) \<le> 0 then Break (gap_filled chunk w)
      else read_view env offset chunk nxt (gap_filled chunk w))"
  using assms fill_gap_exact [OF assms(1,2,3,4)]
  by (auto simp: loop_body_def gap_filled_def Let_def)

lemma loop_body_step:
  assumes "window_in_range offset L" "view_in_range chunk" "walk_inv offset L w"
    and "0 < remaining w"
  shows "loop_body env offset chunk nxt w =
     (let g = gap_filled chunk w;
          stop = min (LogicOffset chunk + int (Size chunk)) (offset + int L)
      in if remaining g \<le> 0 then Break g
         else if stop \<le> startOffset g then Continue g
         else
           case readFromWholeChunkData env (rdr g) chunk [nxt] of
             Panicked k \<Rightarrow> Panic k
           | Returned (Inl err, c1) \<Rightarrow> Return (g\<lparr>rdr := c1\<rparr>) err
           | Returned (Inr buffer, c1) \<Rightarrow>
               (let bo = startOffset g - LogicOffset chunk + Offset chunk;
                    len = stop - startOffset g
                in if \<not> slice_ok buffer bo (bo + len) then Panic Src_slice_out_of_range
                   else Continue (g\<lparr>nbytes := nbytes g + len,
                                    startOffset := stop,
                                    remaining := remaining g - len,
                                    buf := copy_to (buf g) (nbytes g) (nbytes g + len)
                                             (slice buffer bo (bo + len)),
                                    rdr := c1\<rparr>)))"
proof (cases "remaining (gap_filled chunk w) \<le> 0")
  case True
  then show ?thesis
    by (simp add: loop_body_exact [OF assms] Let_def)
next
  case False
  have inv: "walk_inv offset L (gap_filled chunk w)"
    by (rule gap_filled_inv [OF assms(3,4)])
  have ge: "LogicOffset chunk \<le> startOffset (gap_filled chunk w)"
    by simp
  from False have pos: "0 < remaining (gap_filled chunk w)" by simp
  show ?thesis
    unfolding loop_body_exact [OF assms] read_view_exact [OF assms(1,2) inv pos ge]
    using False by (simp add: Let_def)
qed

lemma readOneWholeChunk_panic:
  "readOneWholeChunk env c v = Panicked k \<Longrightarrow> k = Nil_chunk_cache \<and> chunkCache c = None"
  by (auto simp: readOneWholeChunk_def Let_def split: option.splits prod.splits sum.splits)

lemma readFromWholeChunkData_panic:
  "readFromWholeChunkData env c v nexts = Panicked k \<Longrightarrow> k = Nil_chunk_cache \<and> chunkCache c = None"
  by (auto simp: readFromWholeChunkData_def split: if_splits outcome.splits prod.splits sum.splits
      dest: readOneWholeChunk_panic)

lemma loop_body_inv:
  assumes "window_in_range offset L" "view_in_range chunk" "walk_inv offset L w"
    and "0 < remaining w"
  shows "case loop_body env offset chunk nxt w of
           Continue w1 \<Rightarrow> walk_inv offset L w1
         | Break w1 \<Rightarrow> walk_inv offset L w1
         | Return w1 e \<Rightarrow> walk_inv offset L w1 \<and> 0 < remaining w1
         | Panic k \<Rightarrow> k \<noteq> Dst_slice_out_of_range"
proof -
  define g where "g = gap_filled chunk w"
  define stop where "stop = min (LogicOffset chunk + int (Size chunk)) (offset + int L)"
  have inv: "walk_inv offset L g"
    unfolding g_def by (rule gap_filled_inv [OF assms(3,4)])
  have step: "\<And>buffer c1. 0 < remaining g \<Longrightarrow> startOffset g < stop \<Longrightarrow>
     walk_inv offset L (g\<lparr>nbytes := nbytes g + (stop - startOffset g),
                                    startOffset := stop,
                                    remaining := remaining g - (stop - startOffset g),
                                    buf := copy_to (buf g) (nbytes g) (nbytes g + (stop - startOffset g)) buffer,
                                    rdr := c1\<rparr>)"
  proof -
    fix buffer :: "byte list" and c1 :: "('a, 'b) ChunkReadAt"
    assume pos: "0 < remaining g" and lt: "startOffset g < stop"
    from inv pos have so: "startOffset g = offset + nbytes g" and nb: "nbytes g = int L - remaining g"
      and len: "length (buf g) = L" and rl: "remaining g \<le> int L"
      by (auto simp: walk_inv_def)
    have sb: "stop \<le> offset + int L" by (simp add: stop_def)
    have "length (copy_to (buf g) (nbytes g) (nbytes g + (stop - startOffset g)) buffer) = L"
      using so nb len rl sb lt pos by (subst length_copy_to) simp_all
    then show "walk_inv offset L (g\<lparr>nbytes := nbytes g + (stop - startOffset g),
                                    startOffset := stop,
                                    remaining := remaining g - (stop - startOffset g),
                                    buf := copy_to (buf g) (nbytes g) (nbytes g + (stop - startOffset g)) buffer,
                                    rdr := c1\<rparr>)"
      using so nb rl sb lt pos by (simp add: walk_inv_def)
  qed
  have ret: "\<And>c1. walk_inv offset L (g\<lparr>rdr := c1\<rparr>)"
    using inv by (simp add: walk_inv_def)
  show ?thesis
    unfolding loop_body_step [OF assms] g_def [symmetric] stop_def [symmetric] Let_def
    using inv step ret
    by (auto split: outcome.split sum.split prod.split dest: readFromWholeChunkData_panic)
qed

lemma walk_views_inv:
  assumes "window_in_range offset L" "\<forall>v \<in> set views. view_in_range v" "walk_inv offset L w"
  shows "case walk_views env offset views w of
           Done w1 \<Rightarrow> walk_inv offset L w1
         | Failed w1 e \<Rightarrow> walk_inv offset L w1 \<and> 0 < remaining w1
         | Crashed k \<Rightarrow> k \<noteq> Dst_slice_out_of_range"
  using assms(2,3)
proof (induction views arbitrary: w)
  case Nil
  then show ?case by simp
next
  case (Cons chunk rest)
  show ?case
  proof (cases "remaining w \<le> 0")
    case True
    with Cons.prems show ?thesis by simp
  next
    case False
    then have pos: "0 < remaining w" by simp
    from Cons.prems have vr: "view_in_range chunk" by simp
    note b = loop_body_inv [OF assms(1) vr Cons.prems(2) pos,
        of env "case rest of [] \<Rightarrow> None | nxt # _ \<Rightarrow> Some nxt"]
    show ?thesis
    proof (cases "loop_body env offset chunk (case rest of [] \<Rightarrow> None | nxt # _ \<Rightarrow> Some nxt) w")
      case (Continue w1)
      with b have "walk_inv offset L w1" by simp
      with Cons.IH [of w1] Cons.prems Continue False show ?thesis by simp
    next
      case (Break w1)
      with b False show ?thesis by simp
    next
      case (Return w1 e)
      with b False show ?thesis by simp
    next
      case (Panic k)
      with b False show ?thesis by simp
    qed
  qed
qed

lemma init_walk_inv: "walk_inv offset (length p) (init_walk c p offset)"
  by (simp add: walk_inv_def init_walk_def)

lemma ReadAt_doReadAt:
  assumes "window_in_range offset L"
  shows "ReadAt env c p offset = doReadAt env c p offset"
proof -
  have "i64 offset = offset"
    using assms by (intro i64_id) (simp_all add: window_in_range_def)
  then show ?thesis
    by (simp add: ReadAt_def)
qed

section \<open>Bounds of the count and of the slices\<close>

lemma doReadAt_bounds:
  assumes "window_in_range offset (length p)" "reader_in_range c"
  shows "case doReadAt env c p offset of
           Panicked k \<Rightarrow> k \<noteq> Dst_slice_out_of_range
         | Returned (n, e, b, c1) \<Rightarrow> 0 \<le> n \<and> n \<le> int (length p) \<and> length b = length p"
proof -
  from assms(2) have vr: "\<forall>v \<in> set (chunkViews c). view_in_range v" and fs: "fileSize c < 2 ^ 63"
    by (auto simp: reader_in_range_def)
  note wi = walk_views_inv [OF assms(1) vr init_walk_inv, of env c]
  show ?thesis
  proof (cases "walk_views env offset (chunkViews c) (init_walk c p offset)")
    case (Done w)
    with wi have inv: "walk_inv offset (length p) w" by simp
    show ?thesis
    proof (cases "0 < remaining w \<and> startOffset w < fileSize c")
      case True
      with inv have so: "startOffset w = offset + nbytes w" and nb: "nbytes w = int (length p) - remaining w"
        and rl: "remaining w \<le> int (length p)"
        by (auto simp: walk_inv_def)
      from assms(1) have o: "0 \<le> offset" by (simp add: window_in_range_def)
      have d: "i64 (fileSize c - startOffset w) = fileSize c - startOffset w"
        using True fs so nb rl o by (intro i64_id) simp_all
      have m: "0 \<le> min (remaining w) (fileSize c - startOffset w)"
        "min (remaining w) (fileSize c - startOffset w) \<le> remaining w"
        using True by simp_all
      have n: "i64 (nbytes w + min (remaining w) (fileSize c - startOffset w))
          = nbytes w + min (remaining w) (fileSize c - startOffset w)"
        using assms(1) [unfolded window_in_range_def] nb rl m True by (intro i64_id) linarith+
      have res: "\<exists>e. doReadAt env c p offset
          = Returned (nbytes w + min (remaining w) (fileSize c - startOffset w), e, buf w, rdr w)"
        using Done True by (simp add: doReadAt_def Let_def d n)
      have "length (buf w) = length p"
        using inv by (simp add: walk_inv_def)
      with res m nb rl show ?thesis
        by auto
    next
      case False
      then show ?thesis
        using Done inv by (auto simp: doReadAt_def Let_def walk_inv_def)
    qed
  next
    case (Failed w e)
    with wi show ?thesis by (auto simp: doReadAt_def walk_inv_def)
  next
    case (Crashed k)
    with wi show ?thesis by (simp add: doReadAt_def)
  qed
qed

lemma fetches_long_enoughD:
  "fetches_long_enough env views \<Longrightarrow> fetchChunk env k vc fid key gz = (Inr data, vc1)
     \<Longrightarrow> long_enough views fid data"
  unfolding fetches_long_enough_def by blast

lemma cache_long_enough_get:
  "cache_long_enough env views I \<Longrightarrow> I cache \<Longrightarrow> GetChunk env cache fid sz = Some data
     \<Longrightarrow> long_enough views fid data"
  unfolding cache_long_enough_def by blast

lemma cache_long_enough_set:
  "cache_long_enough env views I \<Longrightarrow> I cache \<Longrightarrow> long_enough views fid data
     \<Longrightarrow> I (SetChunk env cache fid data)"
  unfolding cache_long_enough_def by blast

lemma readOneWholeChunk_long_enough:
  assumes "fetches_long_enough env views" "cache_long_enough env views I"
    and "reader_long_enough views I c"
    and "readOneWholeChunk env c v = Returned (r, c1)"
  shows "reader_long_enough views I c1 \<and> (\<forall>data. r = Inr data \<longrightarrow> long_enough views (FileId v) data)"
proof (cases "chunkCache c")
  case None
  with assms(4) show ?thesis by (simp add: readOneWholeChunk_def)
next
  case (Some cache)
  with assms(3) have I: "I cache" and slot: "long_enough views (lastChunkFileId c) (lastChunkData c)"
    by (auto simp: reader_long_enough_def)
  show ?thesis
  proof (cases "GetChunk env cache (FileId v) (ChunkSize v)")
    case (Some data)
    note hit = this
    have "long_enough views (FileId v) data"
      by (rule cache_long_enough_get [OF assms(2) I hit])
    with assms(4) \<open>chunkCache c = Some cache\<close> hit I slot show ?thesis
      by (auto simp: readOneWholeChunk_def Let_def reader_long_enough_def)
  next
    case None
    note miss = this
    obtain r0 vc where f: "fetchChunk env (wireFetches c) (lookupFileId_closure c) (FileId v)
        (CipherKey v) (IsGzipped v) = (r0, vc)"
      by (cases "fetchChunk env (wireFetches c) (lookupFileId_closure c) (FileId v)
        (CipherKey v) (IsGzipped v)")
    show ?thesis
    proof (cases r0)
      case (Inl e)
      with assms(4) \<open>chunkCache c = Some cache\<close> miss f I slot show ?thesis
        by (auto simp: readOneWholeChunk_def doFetchFullChunkData_def Let_def reader_long_enough_def)
    next
      case (Inr data)
      have le: "long_enough views (FileId v) data"
        by (rule fetches_long_enoughD [OF assms(1) f [unfolded Inr]])
      have "I (SetChunk env cache (FileId v) data)"
        by (rule cache_long_enough_set [OF assms(2) I le])
      with assms(4) \<open>chunkCache c = Some cache\<close> miss f Inr le slot show ?thesis
        by (auto simp: readOneWholeChunk_def doFetchFullChunkData_def Let_def reader_long_enough_def)
    qed
  qed
qed

lemma fold_launch_read_ahead_slot [simp]:
  "lastChunkFileId (fold launch_read_ahead nexts c) = lastChunkFileId c"
  "lastChunkData (fold launch_read_ahead nexts c) = lastChunkData c"
  "chunkCache (fold launch_read_ahead nexts c) = chunkCache c"
  "coordinatorCalls (fold launch_read_ahead nexts c) = coordinatorCalls c"
  "wireFetches (fold launch_read_ahead nexts c) = wireFetches c"
  "chunkViews (fold launch_read_ahead nexts c) = chunkViews c"
  "fileSize (fold launch_read_ahead nexts c) = fileSize c"
  by (induction nexts arbitrary: c; simp add: launch_read_ahead_def split: option.splits)+

lemma readFromWholeChunkData_long_enough:
  assumes "fetches_long_enough env views" "cache_long_enough env views I"
    and "reader_long_enough views I c"
    and "readFromWholeChunkData env c v nexts = Returned (r, c1)"
  shows "reader_long_enough views I c1 \<and> (\<forall>data. r = Inr data \<longrightarrow> long_enough views (FileId v) data)"
proof (cases "lastChunkFileId c = FileId v")
  case True
  with assms(3,4) show ?thesis
    by (auto simp: readFromWholeChunkData_def reader_long_enough_def)
next
  case False
  show ?thesis
  proof (cases "readOneWholeChunk env c v")
    case (Panicked k)
    with assms(4) False show ?thesis by (simp add: readFromWholeChunkData_def)
  next
    case (Returned x)
    obtain r0 c0 where x: "x = (r0, c0)" by (cases x)
    note h = readOneWholeChunk_long_enough [OF assms(1,2,3) Returned [unfolded x]]
    show ?thesis
      using assms(4) False Returned x h
      by (cases r0) (auto simp: readFromWholeChunkData_def reader_long_enough_def)
  qed
qed

lemma loop_body_src:
  assumes "window_in_range offset L" "view_in_range chunk" "walk_inv offset L w"
    and "0 < remaining w" "chunk \<in> set views"
    and "fetches_long_enough env views" "cache_long_enough env views I"
    and "reader_long_enough views I (rdr w)"
  shows "case loop_body env offset chunk nxt w of
           Continue w1 \<Rightarrow> reader_long_enough views I (rdr w1)
         | Break w1 \<Rightarrow> reader_long_enough views I (rdr w1)
         | Return w1 e \<Rightarrow> reader_long_enough views I (rdr w1)
         | Panic k \<Rightarrow> k = Nil_chunk_cache"
proof -
  define g where "g = gap_filled chunk w"
  define stop where "stop = min (LogicOffset chunk + int (Size chunk)) (offset + int L)"
  have rg: "rdr g = rdr w" and ge: "LogicOffset chunk \<le> startOffset g"
    by (simp_all add: g_def)
  from assms(2) have o: "0 \<le> Offset chunk"
    by (simp add: view_in_range_def)
  have sb: "stop \<le> LogicOffset chunk + int (Size chunk)"
    by (simp add: stop_def)
  show ?thesis
  proof (cases "remaining g \<le> 0 \<or> stop \<le> startOffset g")
    case True
    then show ?thesis
      unfolding loop_body_step [OF assms(1,2,3,4)] g_def [symmetric] stop_def [symmetric] Let_def
      using assms(8) rg by auto
  next
    case False
    show ?thesis
    proof (cases "readFromWholeChunkData env (rdr g) chunk [nxt]")
      case (Panicked k)
      with False readFromWholeChunkData_panic [OF Panicked] show ?thesis
        unfolding loop_body_step [OF assms(1,2,3,4)] g_def [symmetric] stop_def [symmetric] Let_def
        by simp
    next
      case (Returned x)
      obtain r c1 where x: "x = (r, c1)" by (cases x)
      note h = readFromWholeChunkData_long_enough [OF assms(6,7) assms(8) [folded rg] Returned [unfolded x]]
      show ?thesis
      proof (cases r)
        case (Inl e)
        with False Returned x h show ?thesis
          unfolding loop_body_step [OF assms(1,2,3,4)] g_def [symmetric] stop_def [symmetric] Let_def
          by simp
      next
        case (Inr buffer)
        with h have "long_enough views (FileId chunk) buffer" by simp
        with assms(5) have "Offset chunk + int (Size chunk) \<le> int (length buffer)"
          by (auto simp: long_enough_def)
        with o sb ge False
        have "slice_ok buffer (startOffset g - LogicOffset chunk + Offset chunk)
               (startOffset g - LogicOffset chunk + Offset chunk + (stop - startOffset g))"
          by (simp add: slice_ok_def)
        with False Returned x h Inr show ?thesis
          unfolding loop_body_step [OF assms(1,2,3,4)] g_def [symmetric] stop_def [symmetric] Let_def
          by simp
      qed
    qed
  qed
qed

lemma walk_views_src:
  assumes "window_in_range offset L" "\<forall>v \<in> set rest. view_in_range v" "walk_inv offset L w"
    and "set rest \<subseteq> set views"
    and "fetches_long_enough env views" "cache_long_enough env views I"
    and "reader_long_enough views I (rdr w)"
  shows "walk_views env offset rest w \<noteq> Crashed Src_slice_out_of_range"
  using assms(2,3,4,7)
proof (induction rest arbitrary: w)
  case Nil
  then show ?case by simp
next
  case (Cons chunk rest)
  show ?case
  proof (cases "remaining w \<le> 0")
    case True
    then show ?thesis by simp
  next
    case False
    then have pos: "0 < remaining w" by simp
    from Cons.prems have vr: "view_in_range chunk" and mem: "chunk \<in> set views" by auto
    note b = loop_body_inv [OF assms(1) vr Cons.prems(2) pos,
        of env "case rest of [] \<Rightarrow> None | nxt # _ \<Rightarrow> Some nxt"]
    note s = loop_body_src [OF assms(1) vr Cons.prems(2) pos mem assms(5,6) Cons.prems(4),
        of "case rest of [] \<Rightarrow> None | nxt # _ \<Rightarrow> Some nxt"]
    show ?thesis
    proof (cases "loop_body env offset chunk (case rest of [] \<Rightarrow> None | nxt # _ \<Rightarrow> Some nxt) w")
      case (Continue w1)
      with b s have "walk_inv offset L w1" "reader_long_enough views I (rdr w1)" by simp_all
      with Cons.IH [of w1] Cons.prems Continue False show ?thesis by simp
    next
      case (Break w1)
      with False show ?thesis by simp
    next
      case (Return w1 e)
      with False show ?thesis by simp
    next
      case (Panic k)
      with s False show ?thesis by simp
    qed
  qed
qed

lemma doReadAt_src:
  assumes "window_in_range offset (length p)" "reader_in_range c"
    and "fetches_long_enough env (chunkViews c)" "cache_long_enough env (chunkViews c) I"
    and "reader_long_enough (chunkViews c) I c"
  shows "doReadAt env c p offset \<noteq> Panicked Src_slice_out_of_range"
proof -
  from assms(2) have vr: "\<forall>v \<in> set (chunkViews c). view_in_range v"
    by (simp add: reader_in_range_def)
  have r: "reader_long_enough (chunkViews c) I (rdr (init_walk c p offset))"
    using assms(5) by (simp add: init_walk_def)
  note w = walk_views_src [OF assms(1) vr init_walk_inv subset_refl assms(3,4) r]
  then show ?thesis
    by (auto simp: doReadAt_def Let_def split: loop_exit.splits)
qed

lemma short_fetch_panics:
  fixes env :: "('c, 'l) collaborators"
  assumes "view_in_range v" "0 < Size v" "FileId v \<noteq> []"
    and "GetChunk env cache (FileId v) (ChunkSize v) = None"
    and "fetchChunk env 0 LookupFn (FileId v) (CipherKey v) (IsGzipped v) = (Inr data, vc)"
    and "int (length data) < Offset v + int (Size v)"
    and "length p = Size v"
  shows "ReadAt env (NewChunkReaderAtFromClient [v] (Some cache) fsize) p (LogicOffset v)
           = Panicked Src_slice_out_of_range"
proof -
  let ?c = "NewChunkReaderAtFromClient [v] (Some cache) fsize :: ('c, 'l) ChunkReadAt"
  from assms(1) have r: "0 \<le> LogicOffset v" "LogicOffset v + int (Size v) < 2 ^ 63"
    by (simp_all add: view_in_range_def)
  have win: "window_in_range (LogicOffset v) (length p)"
    using r assms(7) by (simp add: window_in_range_def)
  have o: "i64 (LogicOffset v) = LogicOffset v"
    using r by (simp add: i64_id)
  have rd: "readFromWholeChunkData env ?c v [None] = Returned (Inr data,
      ?c\<lparr>coordinatorCalls := 1, lookupFileId_closure := vc, wireFetches := 1,
           chunkCache := Some (SetChunk env cache (FileId v) data),
           lastChunkData := data, lastChunkFileId := FileId v\<rparr>)"
    using assms(3,4,5)
    by (simp add: readFromWholeChunkData_def readOneWholeChunk_def doFetchFullChunkData_def
        NewChunkReaderAtFromClient_def launch_read_ahead_def Let_def)
  have pos: "0 < remaining (init_walk ?c p (LogicOffset v))"
    using assms(2,7) by (simp add: init_walk_def)
  have g: "gap_filled v (init_walk ?c p (LogicOffset v)) = init_walk ?c p (LogicOffset v)"
    by (simp add: gap_filled_def init_walk_def)
  have "loop_body env (LogicOffset v) v None (init_walk ?c p (LogicOffset v))
      = Panic Src_slice_out_of_range"
    unfolding loop_body_step [OF win assms(1) init_walk_inv pos] g Let_def
    using assms(2,6,7) rd
    by (simp add: init_walk_def slice_ok_def)
  with pos have "walk_views env (LogicOffset v) [v] (init_walk ?c p (LogicOffset v))
      = Crashed Src_slice_out_of_range"
    by simp
  moreover have "chunkViews ?c = [v]"
    by (simp add: NewChunkReaderAtFromClient_def)
  ultimately show ?thesis
    by (simp add: ReadAt_def doReadAt_def o)
qed

text \<open>
  C9. For a call in range, whatever the order of the views: \<open>doReadAt\<close> never takes a
  slice of the output buffer out of range, and the count it returns lies between 0 and the
  length of the buffer. When every byte list the reader can get for a view holds at least
  \<open>Offset + Size\<close> bytes, the slice of the chunk's bytes is in range too. That condition
  is needed: a read of a whole view whose fetch returned fewer bytes panics on the source
  slice.
\<close>

theorem slices_in_bounds:
  fixes env :: "('c, 'l) collaborators"
  shows
  "(window_in_range offset (length p) \<and> reader_in_range c \<longrightarrow>
      (case doReadAt env c p offset of
         Panicked k \<Rightarrow> k \<noteq> Dst_slice_out_of_range
       | Returned (n, e, b, c1) \<Rightarrow> 0 \<le> n \<and> n \<le> int (length p)))
   \<and> (window_in_range offset (length p) \<and> reader_in_range c
        \<and> fetches_long_enough env (chunkViews c) \<and> cache_long_enough env (chunkViews c) I
        \<and> reader_long_enough (chunkViews c) I c \<longrightarrow>
      doReadAt env c p offset \<noteq> Panicked Src_slice_out_of_range)
   \<and> (view_in_range v \<and> 0 < Size v \<and> FileId v \<noteq> []
        \<and> GetChunk env cache (FileId v) (ChunkSize v) = None
        \<and> fetchChunk env 0 LookupFn (FileId v) (CipherKey v) (IsGzipped v) = (Inr data, vc)
        \<and> int (length data) < Offset v + int (Size v) \<and> length q = Size v \<longrightarrow>
      ReadAt env (NewChunkReaderAtFromClient [v] (Some cache) fsize) q (LogicOffset v)
        = Panicked Src_slice_out_of_range)"
proof (intro conjI impI)
  assume "window_in_range offset (length p) \<and> reader_in_range c"
  then show "case doReadAt env c p offset of
         Panicked k \<Rightarrow> k \<noteq> Dst_slice_out_of_range
       | Returned (n, e, b, c1) \<Rightarrow> 0 \<le> n \<and> n \<le> int (length p)"
    using doReadAt_bounds [of offset p c env]
    by (auto split: outcome.splits)
next
  assume "window_in_range offset (length p) \<and> reader_in_range c
        \<and> fetches_long_enough env (chunkViews c) \<and> cache_long_enough env (chunkViews c) I
        \<and> reader_long_enough (chunkViews c) I c"
  then show "doReadAt env c p offset \<noteq> Panicked Src_slice_out_of_range"
    using doReadAt_src [of offset p c env I] by blast
next
  assume "view_in_range v \<and> 0 < Size v \<and> FileId v \<noteq> []
        \<and> GetChunk env cache (FileId v) (ChunkSize v) = None
        \<and> fetchChunk env 0 LookupFn (FileId v) (CipherKey v) (IsGzipped v) = (Inr data, vc)
        \<and> int (length data) < Offset v + int (Size v) \<and> length q = Size v"
  then show "ReadAt env (NewChunkReaderAtFromClient [v] (Some cache) fsize) q (LogicOffset v)
        = Panicked Src_slice_out_of_range"
    using short_fetch_panics [of v env cache data vc q fsize] by blast
qed

theorem slices_in_bounds_witness:
  "(case doReadAt (map_cache_env sparse_wire)
           sparse_reader (replicate 70 255) 90 of
      Panicked k \<Rightarrow> k \<noteq> Dst_slice_out_of_range
    | Returned (n, e, b, c1) \<Rightarrow> 0 \<le> n \<and> n \<le> int (length (replicate 70 (255 :: byte))))
   \<and> doReadAt (map_cache_env sparse_wire)
         sparse_reader (replicate 70 255) 90 \<noteq> Panicked Src_slice_out_of_range
   \<and> ReadAt (map_cache_env short_wire)
         (NewChunkReaderAtFromClient [view ''3,01'' 0 100 0] (Some Map.empty) 100)
         (replicate 100 0) 0 = Panicked Src_slice_out_of_range"
proof -
  let ?env = "map_cache_env sparse_wire"
  let ?short = "map_cache_env short_wire"
  let ?c = "sparse_reader"
  have w: "window_in_range 90 (length (replicate 70 (255 :: byte)))"
    by (simp add: window_in_range_def)
  have r: "reader_in_range ?c"
    by (simp add: reader_in_range_def view_in_range_def example_defs NewChunkReaderAtFromClient_def)
  have cv: "chunkViews ?c = sparse_views"
    by (simp add: sparse_reader_def NewChunkReaderAtFromClient_def)
  have f: "fetches_long_enough ?env (chunkViews ?c)"
    unfolding cv
    by (auto simp: fetches_long_enough_def long_enough_def example_defs split: if_splits)
  have k: "cache_long_enough ?env (chunkViews ?c) cached_long_enough"
    unfolding cv
    by (auto simp: cache_long_enough_def cached_long_enough_def map_cache_env_def dom_def)
  have l: "reader_long_enough (chunkViews ?c) cached_long_enough ?c"
    unfolding cv
    by (simp add: reader_long_enough_def cached_long_enough_def long_enough_def example_defs
        NewChunkReaderAtFromClient_def)
  have s: "view_in_range (view ''3,01'' 0 100 0) \<and> 0 < Size (view ''3,01'' 0 100 0)
      \<and> FileId (view ''3,01'' 0 100 0) \<noteq> []
      \<and> GetChunk ?short Map.empty (FileId (view ''3,01'' 0 100 0)) (ChunkSize (view ''3,01'' 0 100 0)) = None
      \<and> fetchChunk ?short 0 LookupFn (FileId (view ''3,01'' 0 100 0)) (CipherKey (view ''3,01'' 0 100 0))
           (IsGzipped (view ''3,01'' 0 100 0)) = (Inr (replicate 60 1), LookupFn)
      \<and> int (length (replicate 60 (1 :: byte))) < Offset (view ''3,01'' 0 100 0) + int (Size (view ''3,01'' 0 100 0))
      \<and> length (replicate 100 (0 :: byte)) = Size (view ''3,01'' 0 100 0)"
    by (simp add: view_in_range_def view_def map_cache_env_def short_wire_def)
  note t = slices_in_bounds [of 90 "replicate 70 255" ?c ?env cached_long_enough]
  note u = slices_in_bounds [of _ _ _ ?short _ "view ''3,01'' 0 100 0" Map.empty
      "replicate 60 1" LookupFn "replicate 100 0" 100]
  have a: "case doReadAt ?env ?c (replicate 70 255) 90 of
      Panicked k \<Rightarrow> k \<noteq> Dst_slice_out_of_range
    | Returned (n, e, b, c1) \<Rightarrow> 0 \<le> n \<and> n \<le> int (length (replicate 70 (255 :: byte)))"
    using t [THEN conjunct1] w r by blast
  have b: "doReadAt ?env ?c (replicate 70 255) 90 \<noteq> Panicked Src_slice_out_of_range"
    using t [THEN conjunct2, THEN conjunct1] w r f k l by blast
  have "LogicOffset (view ''3,01'' 0 100 0) = 0"
    by (simp add: view_def)
  with u [THEN conjunct2, THEN conjunct2] s
  have c: "ReadAt ?short (NewChunkReaderAtFromClient [view ''3,01'' 0 100 0] (Some Map.empty) 100)
         (replicate 100 0) 0 = Panicked Src_slice_out_of_range"
    by simp
  from a b c show ?thesis by blast
qed

section \<open>End of file\<close>

lemma doReadAt_eof:
  assumes "window_in_range offset (length p)"
    and "doReadAt env c p offset = Returned (n, e, b, c1)"
  shows "e = Some EOF \<longleftrightarrow>
           (\<forall>w err. walk_views env offset (chunkViews c) (init_walk c p offset) \<noteq> Failed w err)
           \<and> offset + int (length p) \<ge> fileSize c"
proof -
  have o: "i64 (offset + int (length p)) = offset + int (length p)"
    using assms(1) by (intro i64_id) (simp_all add: window_in_range_def)
  show ?thesis
    using assms(2)
    by (auto simp: doReadAt_def Let_def o split: loop_exit.splits if_splits)
qed

text \<open>
  C4. A call in range that returns reports end-of-file exactly when the walk met no fetch
  error and \<open>offset + len(p) >= fileSize\<close>. A fetch error is a different value of the
  error type, so the two are never reported together. The witness is a read of
  \<open>[190,210)\<close> of the sparse file: it returns 10 bytes and end-of-file in one call.
\<close>

theorem eof_iff:
  assumes "window_in_range offset (length p)"
    and "ReadAt env c p offset = Returned (n, e, b, c1)"
  shows "e = Some EOF \<longleftrightarrow>
           (\<forall>w err. walk_views env offset (chunkViews c) (init_walk c p offset) \<noteq> Failed w err)
           \<and> fileSize c \<le> offset + int (length p)"
  using doReadAt_eof [OF assms(1) assms(2) [unfolded ReadAt_doReadAt [OF assms(1)]]] by simp

theorem eof_iff_witness:
  "(\<forall>w err. walk_views (map_cache_env sparse_wire) 190
       (chunkViews sparse_reader) (init_walk sparse_reader (replicate 20 255) 190) \<noteq> Failed w err)
   \<and> fileSize (sparse_reader)
        \<le> 190 + int (length (replicate 20 (255 :: byte)))
   \<and> (\<exists>b c1. ReadAt (map_cache_env sparse_wire)
          sparse_reader (replicate 20 255) 190 = Returned (10, Some EOF, b, c1))"
proof -
  let ?env = "map_cache_env sparse_wire"
  have w: "window_in_range 190 (length (replicate 20 (255 :: byte)))"
    by (simp add: window_in_range_def)
  have ex: "\<exists>b c1. ReadAt ?env sparse_reader (replicate 20 255) 190 = Returned (10, Some EOF, b, c1)"
    by (simp add: reader_defs example_defs)
  then obtain b c1 where r: "ReadAt ?env sparse_reader (replicate 20 255) 190 = Returned (10, Some EOF, b, c1)"
    by blast
  from eof_iff [OF w r] ex show ?thesis by simp
qed

section \<open>A fetch error ends the walk\<close>

lemma readFromWholeChunkData_Inl:
  "readFromWholeChunkData env c v nexts = Returned (Inl e, c1) \<Longrightarrow>
   readFromWholeChunkData env c v nexts1 = Returned (Inl e, c1)"
  by (auto simp: readFromWholeChunkData_def split: if_splits outcome.splits prod.splits sum.splits)

lemma read_view_Return:
  "read_view env offset chunk nxt w = Return w1 e \<Longrightarrow>
   read_view env offset chunk nxt1 w = Return w1 e"
  by (auto simp: read_view_def Let_def readFromWholeChunkData_Inl [of env _ chunk "[nxt]" _ _ "[nxt1]"]
      split: if_splits outcome.splits prod.splits sum.splits)

lemma loop_body_Return:
  "loop_body env offset chunk nxt w = Return w1 e \<Longrightarrow>
   loop_body env offset chunk nxt1 w = Return w1 e"
  by (auto simp: loop_body_def Let_def split: if_splits dest: read_view_Return)

lemma walk_views_Failed_append:
  "walk_views env offset pre w = Failed w1 e \<Longrightarrow> walk_views env offset (pre @ suf) w = Failed w1 e"
proof (induction pre arbitrary: w)
  case Nil
  then show ?case by simp
next
  case (Cons chunk rest)
  let ?n = "case rest of [] \<Rightarrow> None | nxt # _ \<Rightarrow> Some nxt"
  let ?m = "case rest @ suf of [] \<Rightarrow> None | nxt # _ \<Rightarrow> Some nxt"
  from Cons.prems have pos: "\<not> remaining w \<le> 0"
    by (auto split: if_splits)
  show ?case
  proof (cases "loop_body env offset chunk ?n w")
    case (Continue w2)
    with Cons.prems pos have "rest \<noteq> []"
      by (cases rest) auto
    then have "?m = ?n"
      by (cases rest) auto
    with Continue Cons.prems pos Cons.IH [of w2] show ?thesis
      by simp
  next
    case (Break w2)
    with Cons.prems pos show ?thesis by simp
  next
    case (Return w2 e2)
    with Cons.prems pos have "w2 = w1" "e2 = e" by simp_all
    with Return loop_body_Return [of env offset chunk ?n w w1 e ?m] pos show ?thesis
      by simp
  next
    case (Panic k)
    with Cons.prems pos show ?thesis by simp
  qed
qed

lemma loop_body_cursor:
  assumes "window_in_range offset L" "view_in_range chunk" "walk_inv offset L w"
    and "0 < remaining w"
  shows "case loop_body env offset chunk nxt w of
           Continue w1 \<Rightarrow> startOffset w1 \<le> max (startOffset w) (LogicOffset chunk + int (Size chunk))
         | Break w1 \<Rightarrow> True
         | Return w1 e \<Rightarrow>
             nbytes w1 = max (LogicOffset chunk) (startOffset w) - offset \<and>
             startOffset w < LogicOffset chunk + int (Size chunk) \<and>
             LogicOffset chunk < offset + int L
         | Panic k \<Rightarrow> True"
proof -
  define g where "g = gap_filled chunk w"
  define stop where "stop = min (LogicOffset chunk + int (Size chunk)) (offset + int L)"
  from assms have so: "startOffset w = offset + nbytes w" and nb: "nbytes w = int L - remaining w"
    by (auto simp: walk_inv_def)
  have sg: "startOffset g = max (LogicOffset chunk) (startOffset w)"
    by (simp add: g_def)
  have ng: "0 < remaining g \<Longrightarrow> nbytes g = max (LogicOffset chunk) (startOffset w) - offset"
    using so nb by (auto simp: g_def gap_filled_def)
  have sb: "stop \<le> LogicOffset chunk + int (Size chunk)" "stop \<le> offset + int L"
    by (simp_all add: stop_def)
  have lt: "\<not> stop \<le> startOffset g \<Longrightarrow>
      startOffset w < LogicOffset chunk + int (Size chunk) \<and> LogicOffset chunk < offset + int L"
    using sb sg by linarith
  show ?thesis
    unfolding loop_body_step [OF assms] g_def [symmetric] stop_def [symmetric] Let_def
    using sg ng sb lt
    by (auto split: outcome.split sum.split prod.split)
qed

lemma walk_views_failed_count:
  assumes "window_in_range offset L" "\<forall>v \<in> set rest. view_in_range v" "walk_inv offset L w"
    and "views_ordered rest" "offset \<le> startOffset w"
    and "\<forall>u \<in> set rest. startOffset w \<le> max offset (LogicOffset u)"
    and "walk_views env offset rest w = Failed w1 e"
  shows "\<exists>v \<in> set rest. LogicOffset v < offset + int L \<and> offset < LogicOffset v + int (Size v)
           \<and> nbytes w1 = max (LogicOffset v) offset - offset"
  using assms(2-7)
proof (induction rest arbitrary: w)
  case Nil
  then show ?case by simp
next
  case (Cons chunk rest)
  let ?n = "case rest of [] \<Rightarrow> None | nxt # _ \<Rightarrow> Some nxt"
  from Cons.prems(6) have pos: "0 < remaining w"
    by (auto split: if_splits)
  from Cons.prems(1) have vr: "view_in_range chunk" by simp
  note b = loop_body_inv [OF assms(1) vr Cons.prems(2) pos, of env ?n]
  note c = loop_body_cursor [OF assms(1) vr Cons.prems(2) pos, of env ?n]
  from Cons.prems(3) have ord: "\<forall>u \<in> set rest. LogicOffset chunk + int (Size chunk) \<le> LogicOffset u"
    and ordr: "views_ordered rest"
    by (simp_all add: views_ordered_def)
  show ?case
  proof (cases "loop_body env offset chunk ?n w")
    case (Continue w2)
    with b c have inv2: "walk_inv offset L w2"
      and le: "startOffset w2 \<le> max (startOffset w) (LogicOffset chunk + int (Size chunk))"
      by simp_all
    have w2: "walk_views env offset rest w2 = Failed w1 e"
      using Cons.prems(6) pos Continue by simp
    then have pos2: "0 < remaining w2"
      by (cases rest) (auto split: if_splits)
    with inv2 have ge2: "offset \<le> startOffset w2"
      by (auto simp: walk_inv_def)
    have cur2: "\<forall>u \<in> set rest. startOffset w2 \<le> max offset (LogicOffset u)"
    proof
      fix u assume u: "u \<in> set rest"
      with ord have "LogicOffset chunk + int (Size chunk) \<le> LogicOffset u" by simp
      moreover from Cons.prems(5) u have "startOffset w \<le> max offset (LogicOffset u)" by simp
      ultimately show "startOffset w2 \<le> max offset (LogicOffset u)"
        using le by linarith
    qed
    from Cons.prems(1) have vrs: "\<forall>v \<in> set rest. view_in_range v" by simp
    from Cons.IH [OF vrs inv2 ordr ge2 cur2 w2] show ?thesis by auto
  next
    case (Break w2)
    with Cons.prems(6) pos show ?thesis by simp
  next
    case (Return w2 e2)
    with Cons.prems(6) pos have eq: "w2 = w1" by simp
    from Return c have n: "nbytes w2 = max (LogicOffset chunk) (startOffset w) - offset"
      and i: "startOffset w < LogicOffset chunk + int (Size chunk)" "LogicOffset chunk < offset + int L"
      by simp_all
    from Cons.prems(5) have "startOffset w \<le> max offset (LogicOffset chunk)" by simp
    with Cons.prems(4) have "max (LogicOffset chunk) (startOffset w) = max (LogicOffset chunk) offset"
      by linarith
    with n i eq Cons.prems(4) show ?thesis by auto
  next
    case (Panic k)
    with Cons.prems(6) pos show ?thesis by simp
  qed
qed

text \<open>
  C3. Once the walk has met a fetch error at some view, \<open>doReadAt\<close> returns that error
  with the count and the buffer of that moment, whatever views follow: no later view is
  read, no trailing gap is added and end-of-file is not reported. With ordered views and a
  call in range, the count returned with a fetch error is the number of bytes of the
  window that lie before the failing view's part of it: the gaps filled and the views
  copied so far.
\<close>

theorem fetch_failure_keeps_count:
  "(chunkViews c = pre @ suf \<and> walk_views env offset pre (init_walk c p offset) = Failed w err \<longrightarrow>
      doReadAt env c p offset = Returned (nbytes w, Some (Fetch_failed err), buf w, rdr w))
   \<and> (window_in_range offset (length p) \<and> reader_in_range c \<and> views_ordered (chunkViews c)
        \<and> ReadAt env c p offset = Returned (n, Some (Fetch_failed err), b, c1) \<longrightarrow>
      (\<exists>v \<in> set (chunkViews c).
          LogicOffset v < offset + int (length p) \<and> offset < LogicOffset v + int (Size v)
          \<and> n = max (LogicOffset v) offset - offset) \<and> length b = length p)"
proof (intro conjI impI)
  assume "chunkViews c = pre @ suf \<and> walk_views env offset pre (init_walk c p offset) = Failed w err"
  then show "doReadAt env c p offset = Returned (nbytes w, Some (Fetch_failed err), buf w, rdr w)"
    using walk_views_Failed_append [of env offset pre "init_walk c p offset" w err suf]
    by (simp add: doReadAt_def)
next
  assume a: "window_in_range offset (length p) \<and> reader_in_range c \<and> views_ordered (chunkViews c)
        \<and> ReadAt env c p offset = Returned (n, Some (Fetch_failed err), b, c1)"
  then have d: "doReadAt env c p offset = Returned (n, Some (Fetch_failed err), b, c1)"
    using ReadAt_doReadAt [of offset "length p" env c p] by simp
  from a have vr: "\<forall>v \<in> set (chunkViews c). view_in_range v"
    by (simp add: reader_in_range_def)
  from d obtain w where w: "walk_views env offset (chunkViews c) (init_walk c p offset) = Failed w err"
    and n: "n = nbytes w"
    by (auto simp: doReadAt_def Let_def split: loop_exit.splits if_splits)
  have s: "offset \<le> startOffset (init_walk c p offset)"
    "\<forall>u \<in> set (chunkViews c). startOffset (init_walk c p offset) \<le> max offset (LogicOffset u)"
    by (simp_all add: init_walk_def)
  from a walk_views_failed_count [OF _ vr init_walk_inv _ s w] n
  show "\<exists>v \<in> set (chunkViews c).
          LogicOffset v < offset + int (length p) \<and> offset < LogicOffset v + int (Size v)
          \<and> n = max (LogicOffset v) offset - offset"
    by simp
  from a d doReadAt_bounds [of offset p c env] show "length b = length p"
    by simp
qed

theorem fetch_failure_keeps_count_witness:
  "(\<exists>w. walk_views (map_cache_env flaky_wire) 90 sparse_views
           (init_walk sparse_reader (replicate 70 255) 90) = Failed w ''connection reset''
        \<and> doReadAt (map_cache_env flaky_wire) sparse_reader (replicate 70 255) 90
            = Returned (nbytes w, Some (Fetch_failed ''connection reset''), buf w, rdr w))
   \<and> (\<exists>b c1. ReadAt (map_cache_env flaky_wire) sparse_reader (replicate 70 255) 90
            = Returned (60, Some (Fetch_failed ''connection reset''), b, c1))
   \<and> (\<exists>v \<in> set (chunkViews sparse_reader).
          LogicOffset v < 90 + int (length (replicate 70 (255 :: byte)))
          \<and> 90 < LogicOffset v + int (Size v) \<and> 60 = max (LogicOffset v) 90 - 90)"
proof -
  let ?env = "map_cache_env flaky_wire"
  let ?p = "replicate 70 (255 :: byte)"
  have cv: "chunkViews sparse_reader = sparse_views @ []"
    by (simp add: sparse_reader_def NewChunkReaderAtFromClient_def)
  have "\<exists>w. walk_views ?env 90 sparse_views (init_walk sparse_reader ?p 90) = Failed w ''connection reset''"
    by (simp add: reader_defs example_defs flaky_wire_def)
  then obtain w where w: "walk_views ?env 90 sparse_views (init_walk sparse_reader ?p 90)
      = Failed w ''connection reset''"
    by blast
  have a: "doReadAt ?env sparse_reader ?p 90
      = Returned (nbytes w, Some (Fetch_failed ''connection reset''), buf w, rdr w)"
    using fetch_failure_keeps_count [THEN conjunct1, of sparse_reader sparse_views "[]" ?env 90 ?p w] cv w
    by blast
  have "\<exists>b c1. ReadAt ?env sparse_reader ?p 90
      = Returned (60, Some (Fetch_failed ''connection reset''), b, c1)"
    by (simp add: reader_defs example_defs flaky_wire_def)
  then obtain b c1 where r: "ReadAt ?env sparse_reader ?p 90
      = Returned (60, Some (Fetch_failed ''connection reset''), b, c1)"
    by blast
  have win: "window_in_range 90 (length ?p)"
    by (simp add: window_in_range_def)
  have rng: "reader_in_range sparse_reader"
    by (simp add: reader_in_range_def view_in_range_def example_defs NewChunkReaderAtFromClient_def)
  have ord: "views_ordered (chunkViews sparse_reader)"
    by (simp add: views_ordered_def example_defs NewChunkReaderAtFromClient_def)
  have c: "\<exists>v \<in> set (chunkViews sparse_reader).
          LogicOffset v < 90 + int (length ?p) \<and> 90 < LogicOffset v + int (Size v)
          \<and> 60 = max (LogicOffset v) 90 - 90"
    using fetch_failure_keeps_count [THEN conjunct2, of 90 ?p sparse_reader ?env 60 "''connection reset''" b c1]
      win rng ord r
    by blast
  from w a r c show ?thesis by blast
qed

section \<open>A reader without a content cache\<close>

lemma read_view_nil_cache:
  assumes "chunkCache (rdr w) = None"
  shows "case read_view env offset chunk nxt w of
           Continue w1 \<Rightarrow> rdr w1 = rdr w
         | Break w1 \<Rightarrow> rdr w1 = rdr w
         | Return w1 e \<Rightarrow> False
         | Panic k \<Rightarrow> True"
  using assms
  by (auto simp: read_view_def Let_def readFromWholeChunkData_def readOneWholeChunk_def
      split: ctl.splits)

lemma loop_body_nil_cache:
  assumes "chunkCache (rdr w) = None"
  shows "case loop_body env offset chunk nxt w of
           Continue w1 \<Rightarrow> rdr w1 = rdr w
         | Break w1 \<Rightarrow> rdr w1 = rdr w
         | Return w1 e \<Rightarrow> False
         | Panic k \<Rightarrow> True"
proof -
  have g: "rdr (fill_gap chunk w) = rdr w"
    by (simp add: fill_gap_def Let_def)
  show ?thesis
    using read_view_nil_cache [of w env offset chunk nxt, OF assms]
      read_view_nil_cache [of "fill_gap chunk w" env offset chunk nxt] assms g
    by (auto simp: loop_body_def Let_def split: ctl.splits)
qed

lemma walk_views_nil_cache:
  assumes "chunkCache (rdr w) = None"
  shows "case walk_views env offset views w of
           Done w1 \<Rightarrow> rdr w1 = rdr w
         | Failed w1 e \<Rightarrow> False
         | Crashed k \<Rightarrow> True"
  using assms
proof (induction views arbitrary: w)
  case Nil
  then show ?case by simp
next
  case (Cons chunk rest)
  let ?n = "case rest of [] \<Rightarrow> None | nxt # _ \<Rightarrow> Some nxt"
  note b = loop_body_nil_cache [OF Cons.prems, of env offset chunk ?n]
  show ?case
  proof (cases "loop_body env offset chunk ?n w")
    case (Continue w2)
    with b have r: "rdr w2 = rdr w" by simp
    with Cons.prems have "chunkCache (rdr w2) = None" by simp
    from Cons.IH [OF this] Continue r show ?thesis
      by (auto split: loop_exit.splits)
  next
    case (Break w2)
    with b show ?thesis by simp
  next
    case (Return w2 e)
    with b show ?thesis by simp
  next
    case (Panic k)
    then show ?thesis by simp
  qed
qed

text \<open>
  C10. In a reader whose \<open>chunkCache\<close> is nil, \<open>readOneWholeChunk\<close> panics on the nil
  cache, and so does \<open>readFromWholeChunkData\<close> for every view that the recency slot does
  not hold; the launch of the read-ahead is guarded and does nothing. So a call of
  \<open>doReadAt\<close> that returns has left the reader as it was and reports no fetch error:
  it made no fetch, and every read that needs one panics.
\<close>

theorem nil_cache_fetch_panics:
  "chunkCache c = None \<longrightarrow>
     readOneWholeChunk env c v = Panicked Nil_chunk_cache
     \<and> (lastChunkFileId c \<noteq> FileId v \<longrightarrow>
          readFromWholeChunkData env c v nexts = Panicked Nil_chunk_cache)
     \<and> launch_read_ahead nxt c = c
     \<and> (\<forall>n e b c1. doReadAt env c p offset = Returned (n, e, b, c1) \<longrightarrow>
          c1 = c \<and> (\<forall>err. e \<noteq> Some (Fetch_failed err)))"
proof (intro impI conjI allI)
  assume n: "chunkCache c = None"
  show "readOneWholeChunk env c v = Panicked Nil_chunk_cache"
    using n by (simp add: readOneWholeChunk_def)
  show "readFromWholeChunkData env c v nexts = Panicked Nil_chunk_cache"
    if "lastChunkFileId c \<noteq> FileId v"
    using n that by (simp add: readFromWholeChunkData_def readOneWholeChunk_def)
  show "launch_read_ahead nxt c = c"
    using n by (simp add: launch_read_ahead_def split: option.splits)
  have "chunkCache (rdr (init_walk c p offset)) = None"
    using n by (simp add: init_walk_def)
  note w = walk_views_nil_cache [OF this, of env offset "chunkViews c"]
  show "c1 = c" if "doReadAt env c p offset = Returned (n1, e, b, c1)" for n1 e b c1
    using w that by (auto simp: doReadAt_def Let_def init_walk_def split: loop_exit.splits)
  show "e \<noteq> Some (Fetch_failed err)" if "doReadAt env c p offset = Returned (n1, e, b, c1)"
    for n1 e b c1 err
    using w that by (auto simp: doReadAt_def Let_def split: loop_exit.splits if_splits)
qed

theorem nil_cache_fetch_panics_witness:
  "readOneWholeChunk (map_cache_env sparse_wire) no_cache_reader (view ''3,01'' 0 100 0)
      = Panicked Nil_chunk_cache
   \<and> readFromWholeChunkData (map_cache_env sparse_wire) no_cache_reader (view ''3,01'' 0 100 0)
        [Some (view ''3,02'' 0 50 150)] = Panicked Nil_chunk_cache
   \<and> ReadAt (map_cache_env sparse_wire) no_cache_reader (replicate 70 255) 90
        = Panicked Nil_chunk_cache
   \<and> ReadAt (map_cache_env sparse_wire) no_cache_reader (replicate 20 255) 110
        = Returned (20, None, replicate 20 255, no_cache_reader)"
proof -
  have n: "chunkCache no_cache_reader = None"
    by (simp add: no_cache_reader_def NewChunkReaderAtFromClient_def)
  have m: "lastChunkFileId no_cache_reader \<noteq> FileId (view ''3,01'' 0 100 0)"
    by (simp add: no_cache_reader_def NewChunkReaderAtFromClient_def view_def)
  note t = nil_cache_fetch_panics [of no_cache_reader "map_cache_env sparse_wire"
      "view ''3,01'' 0 100 0" "[Some (view ''3,02'' 0 50 150)]", THEN mp, OF n]
  have a: "ReadAt (map_cache_env sparse_wire) no_cache_reader (replicate 70 255) 90
        = Panicked Nil_chunk_cache"
    by (simp add: reader_defs example_defs no_cache_reader_def)
  have b: "ReadAt (map_cache_env sparse_wire) no_cache_reader (replicate 20 255) 110
        = Returned (20, None, replicate 20 255, no_cache_reader)"
    by (simp add: reader_defs example_defs no_cache_reader_def)
  from t m a b show ?thesis by blast
qed

section \<open>The recency slot\<close>

lemma walk_views_done: "remaining w \<le> 0 \<Longrightarrow> walk_views env offset views w = Done w"
  by (cases views) simp_all

lemma skip_view:
  assumes "window_in_range offset L" "view_in_range u" "walk_inv offset L w"
    and "0 < remaining w" "LogicOffset u + int (Size u) \<le> startOffset w"
  shows "loop_body env offset u nxt w = Continue w"
proof -
  have g: "gap_filled u w = w"
    using assms(5) by (simp add: gap_filled_def)
  have m: "min (LogicOffset u + int (Size u)) (offset + int L) \<le> startOffset w"
    using assms(5) by simp
  show ?thesis
    unfolding loop_body_step [OF assms(1-4)] g Let_def
    using assms(4) m by simp
qed

lemma walk_skip_prefix:
  assumes "window_in_range offset L" "walk_inv offset L w" "0 < remaining w"
    and "\<forall>u \<in> set pre. view_in_range u \<and> LogicOffset u + int (Size u) \<le> startOffset w"
  shows "walk_views env offset (pre @ rest) w = walk_views env offset rest w"
  using assms(4)
proof (induction pre)
  case Nil
  then show ?case by simp
next
  case (Cons u pre)
  then have "loop_body env offset u (case pre @ rest of [] \<Rightarrow> None | nxt # _ \<Rightarrow> Some nxt) w
      = Continue w"
    using skip_view [OF assms(1) _ assms(2,3)] by simp
  with Cons assms(3) show ?case by simp
qed

lemma doReadAt_inside:
  assumes "reader_in_range c" "views_ordered (chunkViews c)" "chunkViews c = pre @ v # suf"
    and "window_in_range offset (length p)" "inside_view v offset (length p)" "0 < length p"
  shows "doReadAt env c p offset =
     (case readFromWholeChunkData env c v [case suf of [] \<Rightarrow> None | nxt # _ \<Rightarrow> Some nxt] of
        Panicked k \<Rightarrow> Panicked k
      | Returned (Inl err, c1) \<Rightarrow> Returned (0, Some (Fetch_failed err), p, c1)
      | Returned (Inr buffer, c1) \<Rightarrow>
          (let bo = offset - LogicOffset v + Offset v in
           if \<not> slice_ok buffer bo (bo + int (length p)) then Panicked Src_slice_out_of_range
           else Returned (int (length p),
                  if fileSize c \<le> offset + int (length p) then Some EOF else None,
                  copy_to p 0 (int (length p)) (slice buffer bo (bo + int (length p))), c1)))"
proof -
  let ?w = "init_walk c p offset"
  let ?n = "case suf of [] \<Rightarrow> None | nxt # _ \<Rightarrow> Some nxt"
  from assms(1,3) have vr: "view_in_range v" and vp: "\<forall>u \<in> set pre. view_in_range u"
    by (simp_all add: reader_in_range_def)
  from assms(2,3) have "\<forall>u \<in> set pre. LogicOffset u + int (Size u) \<le> LogicOffset v"
    by (simp add: views_ordered_def sorted_wrt_append)
  with assms(5) vp have pre: "\<forall>u \<in> set pre. view_in_range u \<and> LogicOffset u + int (Size u) \<le> startOffset ?w"
    by (auto simp: inside_view_def init_walk_def)
  have pos: "0 < remaining ?w"
    using assms(6) by (simp add: init_walk_def)
  have skip: "walk_views env offset (chunkViews c) ?w = walk_views env offset (v # suf) ?w"
    unfolding assms(3) by (rule walk_skip_prefix [OF assms(4) init_walk_inv pos pre])
  have g: "gap_filled v ?w = ?w"
    using assms(5) by (simp add: gap_filled_def inside_view_def init_walk_def)
  have stop: "min (LogicOffset v + int (Size v)) (offset + int (length p)) = offset + int (length p)"
    using assms(5) by (simp add: inside_view_def)
  have o: "i64 (offset + int (length p)) = offset + int (length p)"
    using assms(4) by (intro i64_id) (simp_all add: window_in_range_def)
  have body: "loop_body env offset v ?n ?w =
     (case readFromWholeChunkData env c v [?n] of
        Panicked k \<Rightarrow> Panic k
      | Returned (Inl err, c1) \<Rightarrow> Return (?w\<lparr>rdr := c1\<rparr>) err
      | Returned (Inr buffer, c1) \<Rightarrow>
          (let bo = offset - LogicOffset v + Offset v in
           if \<not> slice_ok buffer bo (bo + int (length p)) then Panic Src_slice_out_of_range
           else Continue \<lparr>nbytes = int (length p), startOffset = offset + int (length p),
                  remaining = 0,
                  buf = copy_to p 0 (int (length p)) (slice buffer bo (bo + int (length p))),
                  rdr = c1\<rparr>))"
    unfolding loop_body_step [OF assms(4) vr init_walk_inv pos] g stop Let_def
    using assms(6)
    by (simp add: init_walk_def split: outcome.split sum.split prod.split)
  have walk: "walk_views env offset (v # suf) ?w =
     (case readFromWholeChunkData env c v [?n] of
        Panicked k \<Rightarrow> Crashed k
      | Returned (Inl err, c1) \<Rightarrow> Failed (?w\<lparr>rdr := c1\<rparr>) err
      | Returned (Inr buffer, c1) \<Rightarrow>
          (let bo = offset - LogicOffset v + Offset v in
           if \<not> slice_ok buffer bo (bo + int (length p)) then Crashed Src_slice_out_of_range
           else Done \<lparr>nbytes = int (length p), startOffset = offset + int (length p),
                  remaining = 0,
                  buf = copy_to p 0 (int (length p)) (slice buffer bo (bo + int (length p))),
                  rdr = c1\<rparr>))"
    using pos
    by (simp add: body walk_views_done Let_def split: outcome.split sum.split prod.split)
  show ?thesis
    unfolding doReadAt_def skip walk
    by (simp add: Let_def o init_walk_def split: outcome.split sum.split prod.split)
qed

lemma doReadAt_empty:
  "doReadAt env c [] offset
     = Returned (0, if fileSize c \<le> i64 (offset + 0) then Some EOF else None, [], c)"
  by (simp add: doReadAt_def walk_views_done init_walk_def)

lemma readOneWholeChunk_fields:
  assumes "readOneWholeChunk env c v = Returned (r, c1)"
  shows "chunkViews c1 = chunkViews c \<and> fileSize c1 = fileSize c
     \<and> lastChunkFileId c1 = lastChunkFileId c \<and> lastChunkData c1 = lastChunkData c
     \<and> coordinatorCalls c1 = Suc (coordinatorCalls c) \<and> wireFetches c1 \<le> Suc (wireFetches c)"
  using assms
  by (auto simp: readOneWholeChunk_def doFetchFullChunkData_def Let_def
      split: option.splits prod.splits sum.splits)

lemma readFromWholeChunkData_fields:
  assumes "readFromWholeChunkData env c v nexts = Returned (r, c1)"
  shows "chunkViews c1 = chunkViews c \<and> fileSize c1 = fileSize c
     \<and> coordinatorCalls c1 \<le> Suc (coordinatorCalls c) \<and> wireFetches c1 \<le> Suc (wireFetches c)
     \<and> (\<forall>data. r = Inr data \<longrightarrow> lastChunkFileId c1 = FileId v \<and> lastChunkData c1 = data)"
proof (cases "lastChunkFileId c = FileId v")
  case True
  with assms show ?thesis by (auto simp: readFromWholeChunkData_def)
next
  case False
  show ?thesis
  proof (cases "readOneWholeChunk env c v")
    case (Panicked k)
    with assms False show ?thesis by (simp add: readFromWholeChunkData_def)
  next
    case (Returned x)
    obtain r0 c0 where x: "x = (r0, c0)" by (cases x)
    note h = readOneWholeChunk_fields [OF Returned [unfolded x]]
    show ?thesis
      using assms False Returned x h
      by (cases r0) (auto simp: readFromWholeChunkData_def)
  qed
qed

lemma slot_overwritten:
  assumes "lastChunkFileId c \<noteq> FileId u"
    and "readFromWholeChunkData env c u nexts = Returned (Inr data, c1)"
  shows "lastChunkFileId c1 = FileId u \<and> lastChunkData c1 = data
     \<and> coordinatorCalls c1 = Suc (coordinatorCalls c)"
proof (cases "readOneWholeChunk env c u")
  case (Panicked k)
  with assms show ?thesis by (simp add: readFromWholeChunkData_def)
next
  case (Returned x)
  obtain r0 c0 where x: "x = (r0, c0)" by (cases x)
  note h = readOneWholeChunk_fields [OF Returned [unfolded x]]
  show ?thesis
    using assms Returned x h
    by (cases r0) (auto simp: readFromWholeChunkData_def)
qed

lemma first_read_inside:
  assumes "reader_in_range c" "views_ordered (chunkViews c)" "v \<in> set (chunkViews c)"
    and "window_in_range offset (length p)" "inside_view v offset (length p)" "0 < length p"
    and "doReadAt env c p offset = Returned (n, e, b, c1)"
    and "\<forall>err. e \<noteq> Some (Fetch_failed err)"
  shows "chunkViews c1 = chunkViews c \<and> fileSize c1 = fileSize c
     \<and> coordinatorCalls c1 \<le> Suc (coordinatorCalls c) \<and> wireFetches c1 \<le> Suc (wireFetches c)
     \<and> lastChunkFileId c1 = FileId v \<and> n = int (length p)"
proof -
  from assms(3) obtain pre suf where sp: "chunkViews c = pre @ v # suf"
    by (auto dest: split_list)
  let ?n = "case suf of [] \<Rightarrow> None | nxt # _ \<Rightarrow> Some nxt"
  note d = doReadAt_inside [OF assms(1,2) sp assms(4,5,6), of env]
  show ?thesis
  proof (cases "readFromWholeChunkData env c v [?n]")
    case (Panicked k)
    with d assms(7) show ?thesis by simp
  next
    case (Returned x)
    obtain r c2 where x: "x = (r, c2)" by (cases x)
    note f = readFromWholeChunkData_fields [OF Returned [unfolded x]]
    show ?thesis
    proof (cases r)
      case (Inl err)
      with d assms(7,8) Returned x show ?thesis by simp
    next
      case (Inr buffer)
      with d assms(7) Returned x f show ?thesis
        by (auto simp: Let_def split: if_splits)
    qed
  qed
qed

lemma slot_hit_inside:
  assumes "reader_in_range c" "views_ordered (chunkViews c)" "v \<in> set (chunkViews c)"
    and "window_in_range offset (length p)" "inside_view v offset (length p)"
    and "lastChunkFileId c = FileId v"
  shows "case doReadAt env c p offset of
           Panicked k \<Rightarrow> k = Src_slice_out_of_range
         | Returned (n, e, b, c1) \<Rightarrow> c1 = c \<and> n = int (length p)"
proof (cases "p = []")
  case True
  then show ?thesis by (simp add: doReadAt_empty)
next
  case False
  then have pos: "0 < length p" by simp
  from assms(3) obtain pre suf where sp: "chunkViews c = pre @ v # suf"
    by (auto dest: split_list)
  have hit: "\<And>nexts. readFromWholeChunkData env c v nexts = Returned (Inr (lastChunkData c), c)"
    using assms(6) by (simp add: readFromWholeChunkData_def)
  show ?thesis
    unfolding doReadAt_inside [OF assms(1,2) sp assms(4,5) pos] hit
    by (simp add: Let_def)
qed

text \<open>
  C6, as stated, fails when the first read meets a fetch error: the slot is filled on
  success only, so the second read of the same window calls \<open>readOneWholeChunk\<close> again,
  and the two reads make two calls and two wire fetches.
\<close>

theorem failed_first_read_fetches_twice:
  "ReadAt (map_cache_env retry_wire) one_view_reader (replicate 10 255) 10
     = Returned (0, Some (Fetch_failed ''connection reset''), replicate 10 255,
         one_view_reader\<lparr>coordinatorCalls := 1, wireFetches := 1\<rparr>)
   \<and> ReadAt (map_cache_env retry_wire)
         (one_view_reader\<lparr>coordinatorCalls := 1, wireFetches := 1\<rparr>) (replicate 10 255) 10
     = Returned (10, None, replicate 10 1,
         one_view_reader\<lparr>coordinatorCalls := 2, wireFetches := 2,
           chunkCache := Some [''3,01'' \<mapsto> replicate 100 1],
           lastChunkData := replicate 100 1, lastChunkFileId := ''3,01''\<rparr>)"
  by (simp add: reader_defs example_defs retry_wire_def one_view_reader_def)

text \<open>
  C6, amended. The views are ordered and in range, and two windows lie inside the byte
  range of one view; the first is not empty and the first read returns without a fetch
  error. Then the first read makes at most one call of \<open>readOneWholeChunk\<close> and one wire
  fetch and leaves the view's chunk in the slot, and the second read, whatever the content
  cache holds by then, leaves the reader as it is: it makes no call of
  \<open>readOneWholeChunk\<close>, and returns the whole window unless the slot's bytes are too
  short for it. A successful fetch of a chunk that the slot does not hold overwrites the
  slot.
\<close>

theorem second_read_from_slot:
  assumes "reader_in_range c" "views_ordered (chunkViews c)" "v \<in> set (chunkViews c)"
    and "window_in_range off1 (length p1)" "inside_view v off1 (length p1)" "0 < length p1"
    and "window_in_range off2 (length p2)" "inside_view v off2 (length p2)"
    and "ReadAt env c p1 off1 = Returned (n1, e1, b1, c1)"
    and "\<forall>err. e1 \<noteq> Some (Fetch_failed err)"
  shows "coordinatorCalls c1 \<le> Suc (coordinatorCalls c) \<and> wireFetches c1 \<le> Suc (wireFetches c)
     \<and> lastChunkFileId c1 = FileId v
     \<and> (\<forall>cache. case ReadAt env (c1\<lparr>chunkCache := cache\<rparr>) p2 off2 of
                    Panicked k \<Rightarrow> k = Src_slice_out_of_range
                  | Returned (n2, e2, b2, c2) \<Rightarrow>
                      c2 = c1\<lparr>chunkCache := cache\<rparr> \<and> n2 = int (length p2))
     \<and> (\<forall>u nexts data c3 c4.
           lastChunkFileId c3 \<noteq> FileId u
           \<and> readFromWholeChunkData env c3 u nexts = Returned (Inr data, c4) \<longrightarrow>
           lastChunkFileId c4 = FileId u \<and> lastChunkData c4 = data)"
proof -
  note r1 = assms(9) [unfolded ReadAt_doReadAt [OF assms(4)]]
  note f = first_read_inside [OF assms(1,2,3,4,5,6) r1 assms(10)]
  have "case ReadAt env (c1\<lparr>chunkCache := cache\<rparr>) p2 off2 of
                    Panicked k \<Rightarrow> k = Src_slice_out_of_range
                  | Returned (n2, e2, b2, c2) \<Rightarrow>
                      c2 = c1\<lparr>chunkCache := cache\<rparr> \<and> n2 = int (length p2)" for cache
  proof -
    let ?c = "c1\<lparr>chunkCache := cache\<rparr>"
    have r: "reader_in_range ?c"
      using assms(1) f by (simp add: reader_in_range_def)
    have o: "views_ordered (chunkViews ?c)" and m: "v \<in> set (chunkViews ?c)"
      and h: "lastChunkFileId ?c = FileId v"
      using assms(2,3) f by simp_all
    show ?thesis
      unfolding ReadAt_doReadAt [OF assms(7)]
      by (rule slot_hit_inside [OF r o m assms(7,8) h])
  qed
  moreover have "lastChunkFileId c4 = FileId u \<and> lastChunkData c4 = data"
    if "lastChunkFileId c3 \<noteq> FileId u \<and> readFromWholeChunkData env c3 u nexts = Returned (Inr data, c4)"
    for u nexts data c3 c4
    using slot_overwritten [of c3 u env nexts data c4] that by blast
  ultimately show ?thesis
    using f by blast
qed

theorem second_read_from_slot_witness:
  "\<exists>n1 e1 b1 c1.
     ReadAt (map_cache_env sparse_wire) sparse_reader (replicate 10 255) 10
       = Returned (n1, e1, b1, c1)
     \<and> coordinatorCalls c1 \<le> Suc (coordinatorCalls sparse_reader)
     \<and> wireFetches c1 \<le> Suc (wireFetches sparse_reader)
     \<and> lastChunkFileId c1 = FileId (view ''3,01'' 0 100 0)
     \<and> (\<forall>cache. case ReadAt (map_cache_env sparse_wire) (c1\<lparr>chunkCache := cache\<rparr>)
                        (replicate 20 255) 30 of
                    Panicked k \<Rightarrow> k = Src_slice_out_of_range
                  | Returned (n2, e2, b2, c2) \<Rightarrow>
                      c2 = c1\<lparr>chunkCache := cache\<rparr> \<and> n2 = int (length (replicate 20 (255 :: byte))))"
proof -
  let ?env = "map_cache_env sparse_wire"
  let ?v = "view ''3,01'' 0 100 0"
  have "\<exists>b1 c1. ReadAt ?env sparse_reader (replicate 10 255) 10 = Returned (10, None, b1, c1)"
    by (simp add: reader_defs example_defs)
  then obtain b1 c1 where r: "ReadAt ?env sparse_reader (replicate 10 255) 10 = Returned (10, None, b1, c1)"
    by blast
  have rng: "reader_in_range sparse_reader"
    by (simp add: reader_in_range_def view_in_range_def example_defs NewChunkReaderAtFromClient_def)
  have ord: "views_ordered (chunkViews sparse_reader)"
    by (simp add: views_ordered_def example_defs NewChunkReaderAtFromClient_def)
  have mem: "?v \<in> set (chunkViews sparse_reader)"
    by (simp add: example_defs NewChunkReaderAtFromClient_def)
  have w1: "window_in_range 10 (length (replicate 10 (255 :: byte)))"
    and w2: "window_in_range 30 (length (replicate 20 (255 :: byte)))"
    by (simp_all add: window_in_range_def)
  have i1: "inside_view ?v 10 (length (replicate 10 (255 :: byte)))"
    and i2: "inside_view ?v 30 (length (replicate 20 (255 :: byte)))"
    by (simp_all add: inside_view_def view_def)
  have pos: "0 < length (replicate 10 (255 :: byte))" by simp
  have ne: "\<forall>err. (None :: error option) \<noteq> Some (Fetch_failed err)" by simp
  note t = second_read_from_slot [OF rng ord mem w1 i1 pos w2 i2 r ne]
  from r t show ?thesis by blast
qed

section \<open>The location cache\<close>

lemma lookup_job_result:
  assumes "lookup_job client fileId vid s0 = (r, s)"
  shows "lookup_err s = r \<and> lookups s = Suc (lookups s0)
     \<and> (\<forall>vid1. vid1 \<noteq> vid \<longrightarrow> vidCache s vid1 = vidCache s0 vid1)
     \<and> (case r of
           None \<Rightarrow> (\<exists>locs. locs \<noteq> [] \<and> locations s = Some locs \<and> vidCache s vid = Some locs)
         | Some e \<Rightarrow> vidCache s vid = vidCache s0 vid)"
  using assms
  by (auto simp: lookup_job_def Let_def split: sum.splits option.splits if_splits)

lemma Retry_lookup_job_result:
  assumes "Retry k again (lookup_job client fileId vid) s0 = (r, s)"
  shows "lookup_err s = r \<and> lookups s0 < lookups s
     \<and> (\<forall>vid1. vid1 \<noteq> vid \<longrightarrow> vidCache s vid1 = vidCache s0 vid1)
     \<and> (case r of
           None \<Rightarrow> (\<exists>locs. locs \<noteq> [] \<and> locations s = Some locs \<and> vidCache s vid = Some locs)
         | Some e \<Rightarrow> vidCache s vid = vidCache s0 vid)"
  using assms
proof (induction k arbitrary: s0)
  case 0
  then show ?case
    using lookup_job_result [of client fileId vid s0 r s] by simp
next
  case (Suc k)
  obtain r1 s1 where j: "lookup_job client fileId vid s0 = (r1, s1)"
    by (cases "lookup_job client fileId vid s0")
  note h = lookup_job_result [OF j]
  show ?case
  proof (cases r1)
    case None
    with Suc.prems j h show ?thesis by auto
  next
    case (Some e)
    show ?thesis
    proof (cases "again e")
      case True
      with Suc.prems j Some have "Retry k again (lookup_job client fileId vid) s1 = (r, s)"
        by simp
      from Suc.IH [OF this] h Some show ?thesis
        by (auto split: option.splits)
    next
      case False
      with Suc.prems j Some h show ?thesis by auto
    qed
  qed
qed

lemma lookupFileId_hit:
  assumes "fst st (VolumeId client fileId) = Some locs"
  shows "lookupFileId client js fileId st
           = (Inr (Inr (shuffle (map (targetUrl client fileId) locs) js)), st)"
  using assms by (simp add: lookupFileId_def Let_def)

lemma lookupFileId_success:
  assumes "lookupFileId client js fileId st = (Inr (Inr urls), st1)"
  shows "\<exists>locs. fst st1 (VolumeId client fileId) = Some locs
           \<and> urls = shuffle (map (targetUrl client fileId) locs) js
           \<and> (fst st (VolumeId client fileId) = None \<longrightarrow> locs \<noteq> [] \<and> snd st < snd st1)
           \<and> (fst st (VolumeId client fileId) \<noteq> None \<longrightarrow> st1 = st)"
proof (cases "fst st (VolumeId client fileId)")
  case (Some locs)
  with assms lookupFileId_hit [OF Some, of js] show ?thesis by auto
next
  case None
  let ?vid = "VolumeId client fileId"
  let ?s0 = "\<lparr>locations = fst st ?vid, lookup_err = None, vidCache = fst st, lookups = snd st\<rparr>"
  obtain r s where R: "Retry (retries client) (retryable client) (lookup_job client fileId ?vid) ?s0 = (r, s)"
    by (cases "Retry (retries client) (retryable client) (lookup_job client fileId ?vid) ?s0")
  note h = Retry_lookup_job_result [OF R]
  from assms None R have "lookup_err s = None"
    by (auto simp: lookupFileId_def Let_def split: option.splits)
  with h have "r = None" by simp
  with h obtain locs where l: "locs \<noteq> []" "locations s = Some locs" "vidCache s ?vid = Some locs"
    by auto
  with assms None R \<open>lookup_err s = None\<close> h show ?thesis
    by (auto simp: lookupFileId_def Let_def)
qed

lemma lookupFileId_keeps:
  assumes "fst st vid = Some locs"
  shows "fst (snd (lookupFileId client js fileId st)) vid = Some locs"
proof (cases "fst st (VolumeId client fileId)")
  case (Some locs1)
  then show ?thesis
    using assms by (simp add: lookupFileId_hit)
next
  case None
  let ?vid = "VolumeId client fileId"
  let ?s0 = "\<lparr>locations = fst st ?vid, lookup_err = None, vidCache = fst st, lookups = snd st\<rparr>"
  obtain r s where R: "Retry (retries client) (retryable client) (lookup_job client fileId ?vid) ?s0 = (r, s)"
    by (cases "Retry (retries client) (retryable client) (lookup_job client fileId ?vid) ?s0")
  note h = Retry_lookup_job_result [OF R]
  from None assms have "vid \<noteq> ?vid" by auto
  with h assms have "vidCache s vid = Some locs" by simp
  with None R show ?thesis
    by (simp add: lookupFileId_def Let_def split: option.splits)
qed

lemma lookup_all_keeps:
  "fst st vid = Some locs \<Longrightarrow> fst (lookup_all client calls st) vid = Some locs"
proof (induction calls arbitrary: st)
  case Nil
  then show ?case by (simp add: lookup_all_def)
next
  case (Cons c calls)
  obtain js fid where c: "c = (js, fid)" by (cases c)
  from Cons.prems have "fst (snd (lookupFileId client js fid st)) vid = Some locs"
    by (rule lookupFileId_keeps)
  from Cons.IH [OF this] c show ?case
    by (simp add: lookup_all_def)
qed

text \<open>
  C5, as stated, fails: \<open>NewChunkReaderAtFromClient\<close> calls \<open>LookupFn\<close>, which makes a
  new map, so each reader has a location cache of its own. After a resolve of a chunk of
  volume 3 through one reader (one remote call), a resolve of another chunk of volume 3
  through a second reader makes a remote call again.
\<close>

theorem two_readers_two_lookups:
  "lookupFileId example_client [0, 0] ''3,01'' (lookupFileId_closure sparse_reader, 0)
     = (Inr (Inr [''http://n2:8080/3,01'', ''http://n3:8080/3,01'', ''http://n1:8080/3,01'']),
        [''3'' \<mapsto> [''n1:8080'', ''n2:8080'', ''n3:8080'']], 1)
   \<and> lookupFileId example_client [0, 0] ''3,02'' (lookupFileId_closure one_view_reader, 1)
     = (Inr (Inr [''http://n2:8080/3,02'', ''http://n3:8080/3,02'', ''http://n1:8080/3,02'']),
        [''3'' \<mapsto> [''n1:8080'', ''n2:8080'', ''n3:8080'']], 2)"
  by (simp add: lookupFileId_def lookup_job_def example_client_def targetUrl_def shuffle_def
      sparse_reader_def one_view_reader_def NewChunkReaderAtFromClient_def LookupFn_def Let_def eval_nat_numeral)

text \<open>
  C5, amended. Within one closure of \<open>LookupFn\<close> (one reader), after a resolve that
  succeeded, the volume stays in the map through any later calls of the closure, and
  every later resolve of a chunk of that volume returns the URLs of the cached locations
  and leaves the map and the number of remote calls as they are.
\<close>

theorem cached_volume_never_looked_up_again:
  assumes "lookupFileId client js fileId st = (Inr (Inr urls), st1)"
    and "VolumeId client fileId2 = VolumeId client fileId"
  shows "\<exists>locs. fst st1 (VolumeId client fileId) = Some locs
     \<and> (\<forall>calls js2. lookupFileId client js2 fileId2 (lookup_all client calls st1)
           = (Inr (Inr (shuffle (map (targetUrl client fileId2) locs) js2)),
              lookup_all client calls st1))"
proof -
  from lookupFileId_success [OF assms(1)] obtain locs
    where l: "fst st1 (VolumeId client fileId) = Some locs" by blast
  have "lookupFileId client js2 fileId2 (lookup_all client calls st1)
           = (Inr (Inr (shuffle (map (targetUrl client fileId2) locs) js2)),
              lookup_all client calls st1)" for calls js2
  proof -
    from l have "fst (lookup_all client calls st1) (VolumeId client fileId2) = Some locs"
      unfolding assms(2) by (rule lookup_all_keeps)
    then show ?thesis by (rule lookupFileId_hit)
  qed
  with l show ?thesis by blast
qed

theorem cached_volume_never_looked_up_again_witness:
  "\<exists>locs. fst ([''3'' \<mapsto> [''n1:8080'', ''n2:8080'', ''n3:8080'']], 1 :: nat) (VolumeId example_client ''3,01'') = Some locs
     \<and> (\<forall>calls js2. lookupFileId example_client js2 ''3,02''
            (lookup_all example_client calls ([''3'' \<mapsto> [''n1:8080'', ''n2:8080'', ''n3:8080'']], 1))
           = (Inr (Inr (shuffle (map (targetUrl example_client ''3,02'') locs) js2)),
              lookup_all example_client calls ([''3'' \<mapsto> [''n1:8080'', ''n2:8080'', ''n3:8080'']], 1)))"
proof -
  have a: "lookupFileId example_client [0, 0] ''3,01'' (LookupFn, 0)
     = (Inr (Inr [''http://n2:8080/3,01'', ''http://n3:8080/3,01'', ''http://n1:8080/3,01'']),
        [''3'' \<mapsto> [''n1:8080'', ''n2:8080'', ''n3:8080'']], 1)"
    by (simp add: lookupFileId_def lookup_job_def example_client_def targetUrl_def shuffle_def
        LookupFn_def Let_def eval_nat_numeral)
  have b: "VolumeId example_client ''3,02'' = VolumeId example_client ''3,01''"
    by (simp add: example_client_def)
  show ?thesis
    by (rule cached_volume_never_looked_up_again [OF a b])
qed

section \<open>The shuffled URL list\<close>

lemma length_shuffle_loop [simp]: "length (shuffle_loop k xs js) = length xs"
  by (induction k xs js rule: shuffle_loop.induct) (simp_all add: Let_def)

lemma mset_shuffle_loop: "k < length xs \<Longrightarrow> mset (shuffle_loop k xs js) = mset xs"
proof (induction k xs js rule: shuffle_loop.induct)
  case (3 k xs r js)
  let ?i = "Suc k" and ?j = "r mod (Suc k + 1)"
  have "?j < Suc k + 1"
    by (rule mod_less_divisor) simp
  with "3.prems" have j: "?j < length xs"
    by linarith
  from "3.prems" j have "mset (xs[?i := xs ! ?j, ?j := xs ! ?i]) = mset xs"
    by (simp add: mset_swap)
  with "3.IH" [of ?i ?j] "3.prems" show ?case
    by (simp add: Let_def)
qed simp_all

lemma mset_shuffle: "mset (shuffle xs js) = mset xs"
  by (cases xs) (simp_all add: shuffle_def mset_shuffle_loop)

lemma shuffle_loop_map:
  "k < length xs \<Longrightarrow> shuffle_loop k (map f xs) js = map f (shuffle_loop k xs js)"
proof (induction k xs js rule: shuffle_loop.induct)
  case (3 k xs r js)
  let ?i = "Suc k" and ?j = "r mod (Suc k + 1)"
  have "?j < Suc k + 1"
    by (rule mod_less_divisor) simp
  with "3.prems" have j: "?j < length xs"
    by linarith
  have "(map f xs)[?i := map f xs ! ?j, ?j := map f xs ! ?i] = map f (xs[?i := xs ! ?j, ?j := xs ! ?i])"
    using "3.prems" j by (simp add: map_update)
  with "3.IH" [of ?i ?j] "3.prems" show ?case
    by (simp add: Let_def)
qed simp_all

lemma shuffle_by_index:
  "shuffle xs js = map (\<lambda>i. xs ! i) (shuffle [0..<length xs] js)"
proof (cases xs)
  case Nil
  then show ?thesis by (simp add: shuffle_def)
next
  case (Cons x ys)
  have "shuffle_loop (length xs - 1) (map (\<lambda>i. xs ! i) [0..<length xs]) js
      = map (\<lambda>i. xs ! i) (shuffle_loop (length xs - 1) [0..<length xs] js)"
    using Cons by (intro shuffle_loop_map) simp
  then show ?thesis
    by (simp add: shuffle_def map_nth)
qed

lemma shuffle_loop_above:
  "k < m \<Longrightarrow> m < length xs \<Longrightarrow> shuffle_loop k xs js ! m = xs ! m"
proof (induction k xs js rule: shuffle_loop.induct)
  case (3 k xs r js)
  let ?i = "Suc k" and ?j = "r mod (Suc k + 1)"
  have "r mod Suc (Suc k) < Suc (Suc k)"
    by (rule mod_less_divisor) simp
  then have j: "r mod Suc (Suc k) \<le> Suc k"
    by linarith
  from "3.IH" [of ?i ?j] "3.prems" j show ?case
    by (simp add: Let_def)
qed simp_all

lemma shuffle_loop_inj:
  assumes "distinct xs" "k < length xs" "draws_ok k js" "draws_ok k js1"
    and "shuffle_loop k xs js = shuffle_loop k xs js1"
  shows "js = js1"
  using assms
proof (induction k arbitrary: xs js js1)
  case 0
  then show ?case by simp
next
  case (Suc k)
  from Suc.prems(3) obtain r t where js: "js = r # t" and r: "r \<le> Suc k" and t: "draws_ok k t"
    by (cases js) auto
  from Suc.prems(4) obtain r1 t1 where js1: "js1 = r1 # t1" and r1: "r1 \<le> Suc k" and t1: "draws_ok k t1"
    by (cases js1) auto
  let ?ys = "xs[Suc k := xs ! r, r := xs ! Suc k]"
  let ?ys1 = "xs[Suc k := xs ! r1, r1 := xs ! Suc k]"
  from r r1 have m: "r mod Suc (Suc k) = r" "r1 mod Suc (Suc k) = r1"
    by simp_all
  from Suc.prems(5) have eq: "shuffle_loop k ?ys t = shuffle_loop k ?ys1 t1"
    by (simp add: js js1 Let_def m)
  have lr: "r < length xs" "r1 < length xs"
    using r r1 Suc.prems(2) by simp_all
  have "shuffle_loop k ?ys t ! Suc k = ?ys ! Suc k"
    using Suc.prems(2) by (intro shuffle_loop_above) simp_all
  moreover have "shuffle_loop k ?ys1 t1 ! Suc k = ?ys1 ! Suc k"
    using Suc.prems(2) by (intro shuffle_loop_above) simp_all
  moreover have "?ys ! Suc k = xs ! r"
    using Suc.prems(2) lr by (cases "r = Suc k") simp_all
  moreover have "?ys1 ! Suc k = xs ! r1"
    using Suc.prems(2) lr by (cases "r1 = Suc k") simp_all
  ultimately have "xs ! r = xs ! r1"
    using eq by simp
  with Suc.prems(1) lr have rr: "r = r1"
    by (simp add: nth_eq_iff_index_eq)
  have d: "distinct ?ys"
    using Suc.prems(1,2) lr by simp
  have "t = t1"
    using Suc.IH [of ?ys t t1] d Suc.prems(2) t t1 eq rr by simp
  with rr js js1 show ?case by simp
qed

lemma draws_ok_Suc_image:
  "{js. draws_ok (Suc k) js} = (\<lambda>(r, t). r # t) ` ({..Suc k} \<times> {js. draws_ok k js})"
proof (intro set_eqI iffI)
  fix js assume "js \<in> {js. draws_ok (Suc k) js}"
  then show "js \<in> (\<lambda>(r, t). r # t) ` ({..Suc k} \<times> {js. draws_ok k js})"
    by (cases js) auto
next
  fix js assume "js \<in> (\<lambda>(r, t). r # t) ` ({..Suc k} \<times> {js. draws_ok k js})"
  then show "js \<in> {js. draws_ok (Suc k) js}"
    by auto
qed

lemma card_draws_ok: "finite {js. draws_ok k js} \<and> card {js. draws_ok k js} = fact (Suc k)"
proof (induction k)
  case 0
  have "{js. draws_ok 0 js} = {[]}" by auto
  then show ?case by simp
next
  case (Suc k)
  have inj: "inj_on (\<lambda>(r, t). r # t) ({..Suc k} \<times> {js. draws_ok k js})"
    by (auto simp: inj_on_def)
  from Suc show ?case
    unfolding draws_ok_Suc_image
    by (simp add: card_image [OF inj] card_cartesian_product)
qed

lemma perms_of_distinct:
  assumes "distinct xs"
  shows "{ys. mset ys = mset xs} = {ys. length ys = length xs \<and> distinct ys \<and> set ys \<subseteq> set xs}"
proof (intro set_eqI iffI)
  fix ys assume "ys \<in> {ys. mset ys = mset xs}"
  then have m: "mset ys = mset xs" by simp
  have "length ys = length xs"
    by (rule mset_eq_length [OF m])
  moreover have "set ys = set xs"
    by (rule mset_eq_setD [OF m])
  moreover have "distinct ys"
    using mset_eq_imp_distinct_iff [OF m] assms by simp
  ultimately show "ys \<in> {ys. length ys = length xs \<and> distinct ys \<and> set ys \<subseteq> set xs}" by simp
next
  fix ys assume "ys \<in> {ys. length ys = length xs \<and> distinct ys \<and> set ys \<subseteq> set xs}"
  then have l: "length ys = length xs" and d: "distinct ys" and s: "set ys \<subseteq> set xs" by simp_all
  from l d assms have "card (set ys) = card (set xs)"
    by (simp add: distinct_card)
  with s have "set ys = set xs"
    by (simp add: card_subset_eq)
  with d assms have "mset ys = mset xs"
    by (simp add: set_eq_iff_mset_eq_distinct)
  then show "ys \<in> {ys. mset ys = mset xs}" by simp
qed

lemma card_perms_of_distinct:
  assumes "distinct xs"
  shows "finite {ys. mset ys = mset xs} \<and> card {ys. mset ys = mset xs} = fact (length xs)"
proof -
  have c: "card (set xs) = length xs"
    using assms by (simp add: distinct_card)
  have f: "finite {ys. length ys = length xs \<and> distinct ys \<and> set ys \<subseteq> set xs}"
    by (rule finite_subset [OF _ finite_lists_length_eq [of "set xs" "length xs"]]) auto
  have "card {ys. length ys = length xs \<and> distinct ys \<and> set ys \<subseteq> set xs}
      = \<Prod>{card (set xs) - length xs + 1 .. card (set xs)}"
    by (rule card_lists_distinct_length_eq) (simp_all add: c)
  also have "\<dots> = fact (length xs)"
    by (simp add: c fact_prod)
  finally show ?thesis
    using f by (simp add: perms_of_distinct [OF assms])
qed

lemma shuffle_bij:
  assumes "distinct xs"
  shows "bij_betw (shuffle xs) {js. draws_ok (length xs - 1) js} {ys. mset ys = mset xs}"
proof (cases xs)
  case Nil
  have "{js. draws_ok 0 js} = {[]}" by auto
  with Nil show ?thesis
    by (simp add: bij_betw_def shuffle_def)
next
  case (Cons x zs)
  let ?k = "length xs - 1"
  let ?D = "{js. draws_ok ?k js}" and ?P = "{ys. mset ys = mset xs}"
  from Cons have k: "?k < length xs" and sk: "Suc ?k = length xs" by simp_all
  have inj: "inj_on (shuffle xs) ?D"
  proof (rule inj_onI)
    fix js js1 assume "js \<in> ?D" "js1 \<in> ?D" "shuffle xs js = shuffle xs js1"
    then have "draws_ok ?k js" "draws_ok ?k js1"
      "shuffle_loop ?k xs js = shuffle_loop ?k xs js1"
      by (simp_all add: shuffle_def)
    then show "js = js1"
      by (rule shuffle_loop_inj [OF assms k])
  qed
  have sub: "shuffle xs ` ?D \<subseteq> ?P"
    by (auto simp: mset_shuffle)
  have "card (shuffle xs ` ?D) = card ?D"
    by (rule card_image [OF inj])
  also have "\<dots> = fact (Suc ?k)"
    using card_draws_ok [of ?k] by blast
  also have "\<dots> = fact (length xs)"
    by (simp only: sk)
  also have "\<dots> = card ?P"
    using card_perms_of_distinct [OF assms] by simp
  finally have c: "card (shuffle xs ` ?D) = card ?P" .
  have f: "finite ?P"
    using card_perms_of_distinct [OF assms] by blast
  have "shuffle xs ` ?D = ?P"
    by (rule card_subset_eq [OF f sub c])
  with inj show ?thesis
    by (simp add: bij_betw_def)
qed

lemma shuffle_map: "shuffle (map f xs) js = map f (shuffle xs js)"
proof (cases xs)
  case Nil
  then show ?thesis by (simp add: shuffle_def)
next
  case (Cons x ys)
  then have "shuffle_loop (length xs - 1) (map f xs) js = map f (shuffle_loop (length xs - 1) xs js)"
    by (intro shuffle_loop_map) simp
  then show ?thesis by (simp add: shuffle_def)
qed

text \<open>
  C8. A resolve that succeeds returns, for the locations \<open>locs\<close> it has cached for the
  volume, the URLs \<open>http://<adjusted address>/<file id>\<close>, one for each location and no
  other: the returned list and the list of the locations' URLs are equal as multisets. Its
  order is an order of the positions of \<open>locs\<close> that the shuffle loop computes from the
  values drawn, and the loop maps the admissible sequences of drawn values one-to-one onto
  the permutations of the positions: each permutation comes from exactly one sequence, so
  draws that are uniform and independent give a uniform random permutation.
\<close>

theorem resolve_urls_permuted:
  assumes "lookupFileId client js fileId st = (Inr (Inr urls), st1)"
  shows "\<exists>locs. fst st1 (VolumeId client fileId) = Some locs
     \<and> mset urls = mset (map (\<lambda>loc. ''http://'' @ AdjustedUrl client loc @ ''/'' @ fileId) locs)
     \<and> length urls = length locs
     \<and> urls = map (\<lambda>i. ''http://'' @ AdjustedUrl client (locs ! i) @ ''/'' @ fileId)
                (shuffle [0..<length locs] js)
     \<and> bij_betw (shuffle [0..<length locs]) {ds. draws_ok (length locs - 1) ds}
          {ps. mset ps = mset [0..<length locs]}"
proof -
  let ?f = "\<lambda>loc. ''http://'' @ AdjustedUrl client loc @ ''/'' @ fileId"
  from lookupFileId_success [OF assms] obtain locs
    where c: "fst st1 (VolumeId client fileId) = Some locs"
      and u: "urls = shuffle (map (targetUrl client fileId) locs) js"
    by blast
  have t: "targetUrl client fileId = ?f"
    by (rule ext) (simp add: targetUrl_def)
  have m: "mset urls = mset (map ?f locs)"
    unfolding u t by (rule mset_shuffle)
  have l: "length urls = length locs"
    using mset_eq_length [OF m] by simp
  have "urls = map ?f (shuffle locs js)"
    unfolding u t by (rule shuffle_map)
  also have "shuffle locs js = map (\<lambda>i. locs ! i) (shuffle [0..<length locs] js)"
    by (rule shuffle_by_index)
  finally have i: "urls = map (\<lambda>i. ?f (locs ! i)) (shuffle [0..<length locs] js)"
    by (simp add: comp_def)
  have b: "bij_betw (shuffle [0..<length locs]) {ds. draws_ok (length locs - 1) ds}
          {ps. mset ps = mset [0..<length locs]}"
    using shuffle_bij [of "[0..<length locs]"] by simp
  from c m l i b show ?thesis by blast
qed

theorem resolve_urls_permuted_witness:
  "\<exists>locs. fst ([''3'' \<mapsto> [''n1:8080'', ''n2:8080'', ''n3:8080'']], 1 :: nat) (VolumeId example_client ''3,01'') = Some locs
     \<and> mset [''http://n2:8080/3,01'', ''http://n3:8080/3,01'', ''http://n1:8080/3,01'']
         = mset (map (\<lambda>loc. ''http://'' @ AdjustedUrl example_client loc @ ''/'' @ ''3,01'') locs)
     \<and> length [''http://n2:8080/3,01'', ''http://n3:8080/3,01'', ''http://n1:8080/3,01''] = length locs
     \<and> [''http://n2:8080/3,01'', ''http://n3:8080/3,01'', ''http://n1:8080/3,01'']
         = map (\<lambda>i. ''http://'' @ AdjustedUrl example_client (locs ! i) @ ''/'' @ ''3,01'')
                (shuffle [0..<length locs] [0, 0])
     \<and> bij_betw (shuffle [0..<length locs]) {ds. draws_ok (length locs - 1) ds}
          {ps. mset ps = mset [0..<length locs]}"
proof -
  have a: "lookupFileId example_client [0, 0] ''3,01'' (LookupFn, 0)
     = (Inr (Inr [''http://n2:8080/3,01'', ''http://n3:8080/3,01'', ''http://n1:8080/3,01'']),
        [''3'' \<mapsto> [''n1:8080'', ''n2:8080'', ''n3:8080'']], 1)"
    by (simp add: lookupFileId_def lookup_job_def example_client_def targetUrl_def shuffle_def
        LookupFn_def Let_def eval_nat_numeral)
  show ?thesis
    by (rule resolve_urls_permuted [OF a])
qed

end
